theory Spec2Isabelle
  imports Complex_Main "HOL-Library.AList"
begin

section \<open>Data model of the Zhihu client\<close>

text \<open>
  JSON values as Python sees them after \<open>response.json()\<close>.  A dictionary is an
  association list in insertion order; \<open>map_of\<close> is \<open>dict.get\<close>.
\<close>

datatype json =
    JNull
  | JBool bool
  | JInt int
  | JFloat real
  | JStr string
  | JList "json list"
  | JDict "(string \<times> json) list"

text \<open>Python truthiness (\<open>not x\<close> is \<open>\<not> truthy x\<close>).\<close>

fun truthy :: "json \<Rightarrow> bool" where
  "truthy JNull = False"
| "truthy (JBool b) = b"
| "truthy (JInt i) = (i \<noteq> 0)"
| "truthy (JFloat x) = (x \<noteq> 0)"
| "truthy (JStr s) = (s \<noteq> [])"
| "truthy (JList xs) = (xs \<noteq> [])"
| "truthy (JDict kvs) = (kvs \<noteq> [])"

text \<open>The exceptions the client raises or lets through.\<close>

datatype error =
    MissingCookie                 \<comment> \<open>\<open>Exception("d_c0 not found in cookies")\<close>\<close>
  | KeyError string               \<comment> \<open>subscript of a missing dictionary key\<close>
  | AttributeError                \<comment> \<open>\<open>.get\<close> on a value that is not a dictionary\<close>
  | SignError string              \<comment> \<open>whatever the signer raises\<close>
  | ExtractError string           \<comment> \<open>whatever the extractor raises\<close>
  | CallbackError string          \<comment> \<open>whatever the callback raises\<close>
  | NetworkError string           \<comment> \<open>whatever httpx raises (timeout, connection)\<close>
  | ForbiddenError string
  | DataFetchError json
  | RetryError error              \<comment> \<open>tenacity's wrapper of the last attempt's exception\<close>

type_synonym headers = "(string \<times> string) list"

record response =
  status_code :: int
  resp_text :: string
  json_body :: "json option"      \<comment> \<open>\<open>None\<close>: \<open>response.json()\<close> raises JSONDecodeError\<close>

datatype http_outcome = NetFail string | Response response

record content =
  content_id :: string
  content_type :: string

record comment =
  comment_id :: string
  sub_comment_count :: int

datatype walk = Root | Child

text \<open>
  What a run does to the outside, in the order it does it.  \<open>PageE\<close> and \<open>ExtendE\<close>
  mark the return of a page fetch into a walk and the \<open>extend\<close> of its accumulator.
\<close>

datatype event =
    SignE string string           \<comment> \<open>\<open>sign(url, cookie)\<close>\<close>
  | HttpE string string headers   \<comment> \<open>\<open>client.request(method, url, headers=...)\<close>\<close>
  | WaitE                         \<comment> \<open>tenacity's \<open>wait_fixed(1)\<close> between attempts\<close>
  | SleepE walk real              \<comment> \<open>\<open>asyncio.sleep(crawl_interval)\<close>, in which walk\<close>
  | CallbackE "comment list"      \<comment> \<open>\<open>await callback(comments)\<close>\<close>
  | PageE walk json
  | ExtendE walk "comment list"

text \<open>
  The mutable world: the trace, the store of header dictionaries (by address) and the
  number of HTTP exchanges so far, which is the time the network sees.
\<close>

record world =
  log :: "event list"
  heap :: "nat \<Rightarrow> headers"
  next_addr :: nat
  calls :: nat

text \<open>
  The collaborators that are not part of the client: the signer, \<open>urllib\<close>'s quoting,
  the extractor, the network, and the two configuration constants.
\<close>

record env =
  sign :: "string \<Rightarrow> string \<Rightarrow> error + headers"
  quote_plus :: "string \<Rightarrow> string"
  extract_offset :: "json \<Rightarrow> error + string"
  extract_comments :: "content \<Rightarrow> json \<Rightarrow> error + comment list"
  net :: "nat \<Rightarrow> string \<Rightarrow> string \<Rightarrow> headers \<Rightarrow> http_outcome"
  ENABLE_GET_SUB_COMMENTS :: bool
  ZHIHU_URL :: string

record client =
  default_headers :: nat          \<comment> \<open>address of the shared dictionary\<close>
  cookie_dict :: "(string \<times> string) list"

type_synonym 'a io = "world \<Rightarrow> (error + 'a) \<times> world"

definition emit :: "event \<Rightarrow> world \<Rightarrow> world" where
  "emit e s = s\<lparr>log := log s @ [e]\<rparr>"

section \<open>Signing: \<open>_pre_headers\<close>\<close>

definition subscript :: "(string \<times> 'v) list \<Rightarrow> string \<Rightarrow> error + 'v" where
  "subscript d k = (case map_of d k of None \<Rightarrow> Inl (KeyError k) | Some v \<Rightarrow> Inr v)"

text \<open>\<open>d.copy()\<close>: a new dictionary with the same items, at a fresh address.\<close>

definition copy_dict :: "nat \<Rightarrow> world \<Rightarrow> nat \<times> world" where
  "copy_dict a s =
     (next_addr s, s\<lparr>heap := (heap s)(next_addr s := heap s a), next_addr := Suc (next_addr s)\<rparr>)"

definition set_item :: "nat \<Rightarrow> string \<Rightarrow> string \<Rightarrow> world \<Rightarrow> world" where
  "set_item a k v s = s\<lparr>heap := (heap s)(a := AList.update k v (heap s a))\<rparr>"

definition pre_headers :: "env \<Rightarrow> client \<Rightarrow> string \<Rightarrow> nat io" where
  "pre_headers E cl url s =
     (case map_of (cookie_dict cl) ''d_c0'' of
        None \<Rightarrow> (Inl MissingCookie, s)
      | Some d_c0 \<Rightarrow>
          if d_c0 = [] then (Inl MissingCookie, s)
          else
            (case subscript (heap s (default_headers cl)) ''cookie'' of
               Inl e \<Rightarrow> (Inl e, s)
             | Inr cookie \<Rightarrow>
                 let s1 = emit (SignE url cookie) s in
                 (case sign E url cookie of
                    Inl e \<Rightarrow> (Inl e, s1)
                  | Inr sign_res \<Rightarrow>
                      let (h, s2) = copy_dict (default_headers cl) s1 in
                      (case subscript sign_res ''x-zst-81'' of
                         Inl e \<Rightarrow> (Inl e, s2)
                       | Inr v1 \<Rightarrow>
                           let s3 = set_item h ''x-zst-81'' v1 s2 in
                           (case subscript sign_res ''x-zse-96'' of
                              Inl e \<Rightarrow> (Inl e, s3)
                            | Inr v2 \<Rightarrow> (Inr h, set_item h ''x-zse-96'' v2 s3))))))"

section \<open>Transport: \<open>request\<close> under tenacity's \<open>retry\<close>\<close>

datatype payload = Text string | Json json

text \<open>One attempt: the body of \<open>request\<close>.\<close>

definition interpret_response :: "bool \<Rightarrow> response \<Rightarrow> error + payload" where
  "interpret_response return_response r =
     (if status_code r \<noteq> 200 then
        (if status_code r = 403 then Inl (ForbiddenError (resp_text r))
         else if status_code r = 404 then Inr (Json (JDict []))
         else Inl (DataFetchError (JStr (resp_text r))))
      else if return_response then Inr (Text (resp_text r))
      else
        (case json_body r of
           None \<Rightarrow> Inl (DataFetchError (JStr (resp_text r)))
         | Some (JDict d) \<Rightarrow>
             (case map_of d ''error'' of
                None \<Rightarrow> Inr (Json (JDict d))
              | Some err \<Rightarrow>
                  if truthy err then
                    (case err of
                       JDict ed \<Rightarrow>
                         Inl (DataFetchError (case map_of ed ''message'' of None \<Rightarrow> JNull | Some m \<Rightarrow> m))
                     | _ \<Rightarrow> Inl AttributeError)
                  else Inr (Json (JDict d)))
         | Some _ \<Rightarrow> Inl AttributeError))"

definition request_attempt :: "env \<Rightarrow> string \<Rightarrow> string \<Rightarrow> nat \<Rightarrow> bool \<Rightarrow> payload io" where
  "request_attempt E method url h return_response s =
     (let hs = heap s h;
          s1 = (emit (HttpE method url hs) s)\<lparr>calls := Suc (calls s)\<rparr>
      in case net E (calls s) method url hs of
           NetFail m \<Rightarrow> (Inl (NetworkError m), s1)
         | Response r \<Rightarrow> (interpret_response return_response r, s1))"

text \<open>
  \<open>@retry(stop=stop_after_attempt(3), wait=wait_fixed(1))\<close>: any exception of an attempt
  is retried after the wait; when the last attempt fails too, \<open>RetryError\<close> is raised
  from its exception.  The argument counts the attempts left after the current one.
\<close>

primrec retry :: "nat \<Rightarrow> 'a io \<Rightarrow> 'a io" where
  "retry 0 f s =
     (case f s of
        (Inl e, s1) \<Rightarrow> (Inl (RetryError e), s1)
      | (Inr v, s1) \<Rightarrow> (Inr v, s1))"
| "retry (Suc n) f s =
     (case f s of
        (Inl e, s1) \<Rightarrow> retry n f (emit WaitE s1)
      | (Inr v, s1) \<Rightarrow> (Inr v, s1))"

definition request :: "env \<Rightarrow> string \<Rightarrow> string \<Rightarrow> nat \<Rightarrow> bool \<Rightarrow> payload io" where
  "request E method url h return_response = retry 2 (request_attempt E method url h return_response)"

section \<open>Signed GET and the two comment endpoints\<close>

text \<open>\<open>urlencode\<close> of a dictionary: \<open>k=v\<close> joined by \<open>&\<close>, keys and values quoted.\<close>

fun urlencode :: "env \<Rightarrow> (string \<times> string) list \<Rightarrow> string" where
  "urlencode E [] = []"
| "urlencode E [(k, v)] = quote_plus E k @ ''='' @ quote_plus E v"
| "urlencode E ((k, v) # kvs) = quote_plus E k @ ''='' @ quote_plus E v @ ''&'' @ urlencode E kvs"

text \<open>The route with its query string, as \<open>get\<close> builds it before signing.\<close>

definition final_uri :: "env \<Rightarrow> string \<Rightarrow> (string \<times> string) list option \<Rightarrow> string" where
  "final_uri E uri params = (case params of None \<Rightarrow> uri | Some ps \<Rightarrow> uri @ ''?'' @ urlencode E ps)"

definition get :: "env \<Rightarrow> client \<Rightarrow> string \<Rightarrow> (string \<times> string) list option \<Rightarrow> payload io" where
  "get E cl uri params s =
     (case pre_headers E cl (final_uri E uri params) s of
        (Inl e, s1) \<Rightarrow> (Inl e, s1)
      | (Inr h, s1) \<Rightarrow> request E ''GET'' (ZHIHU_URL E @ final_uri E uri params) h False s1)"

definition comment_params :: "string \<Rightarrow> string \<Rightarrow> string \<Rightarrow> (string \<times> string) list" where
  "comment_params order_by offset limit =
     [(''order'', order_by), (''offset'', offset), (''limit'', limit)]"

definition root_uri :: "content \<Rightarrow> string" where
  "root_uri c = ''/api/v4/'' @ content_type c @ ''s/'' @ content_id c @ ''/root_comments''"

definition child_uri :: "string \<Rightarrow> string" where
  "child_uri root_comment_id = ''/api/v4/comment_v5/comment/'' @ root_comment_id @ ''/child_comment''"

definition get_root_comments :: "env \<Rightarrow> client \<Rightarrow> content \<Rightarrow> string \<Rightarrow> payload io" where
  "get_root_comments E cl c offset =
     get E cl (root_uri c) (Some (comment_params ''sort'' offset ''10''))"

definition get_child_comments :: "env \<Rightarrow> client \<Rightarrow> string \<Rightarrow> string \<Rightarrow> payload io" where
  "get_child_comments E cl root_comment_id offset =
     get E cl (child_uri root_comment_id) (Some (comment_params ''sort'' offset ''10''))"

section \<open>The traversal engine\<close>

text \<open>
  What the walk sees of a page: a \<open>str\<close> (raw text) behaves like a JSON string for
  truthiness and has no \<open>.get\<close>.
\<close>

fun payload_json :: "payload \<Rightarrow> json" where
  "payload_json (Json j) = j"
| "payload_json (Text t) = JStr t"

text \<open>
  The four assignments both walks make from a page: \<open>paging_info\<close>, \<open>is_end\<close>, \<open>offset\<close>
  and the extracted comments.  What \<open>.get\<close> returns for a missing key, \<open>None\<close>, is \<open>JNull\<close>.
\<close>

definition read_page :: "env \<Rightarrow> content \<Rightarrow> json \<Rightarrow> error + (json \<times> string \<times> comment list)" where
  "read_page E c res =
     (case res of
        JDict d \<Rightarrow>
          (case (case map_of d ''paging'' of None \<Rightarrow> JDict [] | Some p \<Rightarrow> p) of
             JDict pd \<Rightarrow>
               (case extract_offset E (JDict pd) of
                  Inl e \<Rightarrow> Inl e
                | Inr offset \<Rightarrow>
                    (case extract_comments E c (case map_of d ''data'' of None \<Rightarrow> JNull | Some v \<Rightarrow> v) of
                       Inl e \<Rightarrow> Inl e
                     | Inr comments \<Rightarrow>
                         Inr (case map_of pd ''is_end'' of None \<Rightarrow> JNull | Some v \<Rightarrow> v,
                              offset, comments)))
           | _ \<Rightarrow> Inl AttributeError)
      | _ \<Rightarrow> Inl AttributeError)"

type_synonym callback = "(comment list \<Rightarrow> error option) option"

definition run_callback :: "callback \<Rightarrow> comment list \<Rightarrow> unit io" where
  "run_callback cb cs s =
     (case cb of
        None \<Rightarrow> (Inr (), s)
      | Some f \<Rightarrow>
          (case f cs of
             None \<Rightarrow> (Inr (), emit (CallbackE cs) s)
           | Some e \<Rightarrow> (Inl e, emit (CallbackE cs) s)))"

text \<open>
  A \<open>while not is_end\<close> loop may run for ever, so both loops take fuel: the number of
  iterations allowed.  \<open>None\<close> is a loop that has not ended within the fuel.  The child
  walk that the root loop starts gets the fuel the root loop has left at that iteration.
\<close>

type_synonym 'a walk_result = "(error + 'a) option \<times> world"

text \<open>The inner \<open>while\<close> of \<open>get_comments_all_sub_comments\<close>, for one parent.\<close>

fun child_pages ::
  "nat \<Rightarrow> env \<Rightarrow> client \<Rightarrow> content \<Rightarrow> comment \<Rightarrow> real \<Rightarrow> callback \<Rightarrow>
   json \<Rightarrow> string \<Rightarrow> comment list \<Rightarrow> world \<Rightarrow> (comment list) walk_result" where
  "child_pages 0 E cl c parent interval cb is_end offset acc s =
     (if truthy is_end then (Some (Inr acc), s) else (None, s))"
| "child_pages (Suc n) E cl c parent interval cb is_end offset acc s =
     (if truthy is_end then (Some (Inr acc), s)
      else
        (case get_child_comments E cl (comment_id parent) offset s of
           (Inl e, s1) \<Rightarrow> (Some (Inl e), s1)
         | (Inr res, s1) \<Rightarrow>
             let s2 = emit (PageE Child (payload_json res)) s1 in
             if \<not> truthy (payload_json res) then (Some (Inr acc), s2)
             else
               (case read_page E c (payload_json res) of
                  Inl e \<Rightarrow> (Some (Inl e), s2)
                | Inr (is_end', offset', sub_comments) \<Rightarrow>
                    if sub_comments = [] then (Some (Inr acc), s2)
                    else
                      (case run_callback cb sub_comments s2 of
                         (Inl e, s3) \<Rightarrow> (Some (Inl e), s3)
                       | (Inr _, s3) \<Rightarrow>
                           child_pages n E cl c parent interval cb is_end' offset'
                             (acc @ sub_comments)
                             (emit (SleepE Child interval) (emit (ExtendE Child sub_comments) s3))))))"

text \<open>The \<open>for\<close> loop over the parents.\<close>

fun sub_comments_loop ::
  "nat \<Rightarrow> env \<Rightarrow> client \<Rightarrow> content \<Rightarrow> real \<Rightarrow> callback \<Rightarrow>
   comment list \<Rightarrow> comment list \<Rightarrow> world \<Rightarrow> (comment list) walk_result" where
  "sub_comments_loop fuel E cl c interval cb [] acc s = (Some (Inr acc), s)"
| "sub_comments_loop fuel E cl c interval cb (parent # rest) acc s =
     (if sub_comment_count parent = 0 then sub_comments_loop fuel E cl c interval cb rest acc s
      else
        (case child_pages fuel E cl c parent interval cb (JBool False) [] acc s of
           (None, s1) \<Rightarrow> (None, s1)
         | (Some (Inl e), s1) \<Rightarrow> (Some (Inl e), s1)
         | (Some (Inr acc'), s1) \<Rightarrow> sub_comments_loop fuel E cl c interval cb rest acc' s1))"

definition get_comments_all_sub_comments ::
  "nat \<Rightarrow> env \<Rightarrow> client \<Rightarrow> content \<Rightarrow> comment list \<Rightarrow> real \<Rightarrow> callback \<Rightarrow>
   world \<Rightarrow> (comment list) walk_result" where
  "get_comments_all_sub_comments fuel E cl c comments interval cb s =
     (if \<not> ENABLE_GET_SUB_COMMENTS E then (Some (Inr []), s)
      else sub_comments_loop fuel E cl c interval cb comments [] s)"

text \<open>The \<open>while\<close> of \<open>get_note_all_comments\<close>.\<close>

fun root_pages ::
  "nat \<Rightarrow> env \<Rightarrow> client \<Rightarrow> content \<Rightarrow> real \<Rightarrow> callback \<Rightarrow>
   json \<Rightarrow> string \<Rightarrow> comment list \<Rightarrow> world \<Rightarrow> (comment list) walk_result" where
  "root_pages 0 E cl c interval cb is_end offset result s =
     (if truthy is_end then (Some (Inr result), s) else (None, s))"
| "root_pages (Suc n) E cl c interval cb is_end offset result s =
     (if truthy is_end then (Some (Inr result), s)
      else
        (case get_root_comments E cl c offset s of
           (Inl e, s1) \<Rightarrow> (Some (Inl e), s1)
         | (Inr res, s1) \<Rightarrow>
             let s2 = emit (PageE Root (payload_json res)) s1 in
             if \<not> truthy (payload_json res) then (Some (Inr result), s2)
             else
               (case read_page E c (payload_json res) of
                  Inl e \<Rightarrow> (Some (Inl e), s2)
                | Inr (is_end', offset', comments) \<Rightarrow>
                    if comments = [] then (Some (Inr result), s2)
                    else
                      (case run_callback cb comments s2 of
                         (Inl e, s3) \<Rightarrow> (Some (Inl e), s3)
                       | (Inr _, s3) \<Rightarrow>
                           (case get_comments_all_sub_comments (Suc n) E cl c comments interval cb
                                   (emit (ExtendE Root comments) s3) of
                              (None, s4) \<Rightarrow> (None, s4)
                            | (Some (Inl e), s4) \<Rightarrow> (Some (Inl e), s4)
                            | (Some (Inr _), s4) \<Rightarrow>
                                root_pages n E cl c interval cb is_end' offset'
                                  (result @ comments) (emit (SleepE Root interval) s4))))))"

definition get_note_all_comments ::
  "nat \<Rightarrow> env \<Rightarrow> client \<Rightarrow> content \<Rightarrow> real \<Rightarrow> callback \<Rightarrow> world \<Rightarrow> (comment list) walk_result" where
  "get_note_all_comments fuel E cl c interval cb s =
     root_pages fuel E cl c interval cb (JBool False) [] [] s"

section \<open>Fixtures\<close>

text \<open>
  A signer that always answers, an extractor that reads \<open>offset\<close>, \<open>id\<close> and
  \<open>child_comment_count\<close>, and a network that plays a script of outcomes, one per exchange.
\<close>

definition demo_sign :: "string \<Rightarrow> string \<Rightarrow> error + headers" where
  "demo_sign url cookie = Inr [(''x-zst-81'', ''3_2.0''), (''x-zse-96'', ''2.0_sig'')]"

definition demo_extract_offset :: "json \<Rightarrow> error + string" where
  "demo_extract_offset p =
     (case p of
        JDict pd \<Rightarrow> (case map_of pd ''offset'' of Some (JStr off) \<Rightarrow> Inr off | _ \<Rightarrow> Inr [])
      | _ \<Rightarrow> Inr [])"

definition demo_comment :: "json \<Rightarrow> comment" where
  "demo_comment j =
     (case j of
        JDict d \<Rightarrow>
          \<lparr>comment_id = (case map_of d ''id'' of Some (JStr i) \<Rightarrow> i | _ \<Rightarrow> []),
           sub_comment_count = (case map_of d ''child_comment_count'' of Some (JInt k) \<Rightarrow> k | _ \<Rightarrow> 0)\<rparr>
      | _ \<Rightarrow> \<lparr>comment_id = [], sub_comment_count = 0\<rparr>)"

definition demo_extract_comments :: "content \<Rightarrow> json \<Rightarrow> error + comment list" where
  "demo_extract_comments c data =
     (case data of JList xs \<Rightarrow> Inr (map demo_comment xs) | _ \<Rightarrow> Inr [])"

definition script :: "http_outcome list \<Rightarrow> nat \<Rightarrow> string \<Rightarrow> string \<Rightarrow> headers \<Rightarrow> http_outcome" where
  "script outs t m u h = (if t < length outs then outs ! t else NetFail ''closed'')"

definition demo_env :: "(string \<Rightarrow> string \<Rightarrow> error + headers) \<Rightarrow> bool \<Rightarrow> http_outcome list \<Rightarrow> env" where
  "demo_env sg flag outs =
     \<lparr>sign = sg, quote_plus = (\<lambda>x. x), extract_offset = demo_extract_offset,
      extract_comments = demo_extract_comments, net = script outs,
      ENABLE_GET_SUB_COMMENTS = flag, ZHIHU_URL = ''https://www.zhihu.com''\<rparr>"

definition demo_client :: client where
  "demo_client = \<lparr>default_headers = 0, cookie_dict = [(''d_c0'', ''AAAA'')]\<rparr>"

definition demo_world :: world where
  "demo_world = \<lparr>log = [], heap = (\<lambda>_. [])(0 := [(''cookie'', ''d_c0=AAAA'')]), next_addr = 1, calls = 0\<rparr>"

definition status :: "int \<Rightarrow> string \<Rightarrow> http_outcome" where
  "status code body = Response \<lparr>status_code = code, resp_text = body, json_body = None\<rparr>"

definition ok :: "json \<Rightarrow> http_outcome" where
  "ok j = Response \<lparr>status_code = 200, resp_text = [], json_body = Some j\<rparr>"

section \<open>Observations on runs\<close>

text \<open>
  A session that can sign: \<open>d_c0\<close> is there and not empty, the default headers hold a
  cookie and are allocated, and the signer answers with both signature headers.
\<close>

definition session_ok :: "env \<Rightarrow> client \<Rightarrow> world \<Rightarrow> bool" where
  "session_ok E cl s \<longleftrightarrow>
     (\<exists>d. map_of (cookie_dict cl) ''d_c0'' = Some d \<and> d \<noteq> []) \<and>
     (\<exists>ck. map_of (heap s (default_headers cl)) ''cookie'' = Some ck \<and>
        (\<forall>u. \<exists>sr v1 v2. sign E u ck = Inr sr \<and>
           map_of sr ''x-zst-81'' = Some v1 \<and> map_of sr ''x-zse-96'' = Some v2)) \<and>
     default_headers cl < next_addr s"

text \<open>The signed routes of the two endpoints, query string included.\<close>

definition root_route :: "env \<Rightarrow> content \<Rightarrow> string \<Rightarrow> string" where
  "root_route E c offset = final_uri E (root_uri c) (Some (comment_params ''sort'' offset ''10''))"

definition child_route :: "env \<Rightarrow> string \<Rightarrow> string \<Rightarrow> string" where
  "child_route E root_comment_id offset =
     final_uri E (child_uri root_comment_id) (Some (comment_params ''sort'' offset ''10''))"

text \<open>The events the walk of one parent's replies can produce.\<close>

definition child_event :: "env \<Rightarrow> real \<Rightarrow> comment \<Rightarrow> event \<Rightarrow> bool" where
  "child_event E interval parent e =
     (case e of
        SignE url cookie \<Rightarrow> (\<exists>offset. url = child_route E (comment_id parent) offset)
      | HttpE m url h \<Rightarrow>
          m = ''GET'' \<and> (\<exists>offset. url = ZHIHU_URL E @ child_route E (comment_id parent) offset)
      | WaitE \<Rightarrow> True
      | SleepE w d \<Rightarrow> w = Child \<and> d = interval
      | CallbackE cs \<Rightarrow> cs \<noteq> []
      | PageE w j \<Rightarrow> w = Child
      | ExtendE w cs \<Rightarrow> w = Child \<and> cs \<noteq> [])"

text \<open>
  The events of the whole child walk: each belongs to the walk of a parent of the list
  whose \<open>sub_comment_count\<close> is not zero, under the configuration flag.
\<close>

definition sub_event :: "env \<Rightarrow> real \<Rightarrow> comment list \<Rightarrow> event \<Rightarrow> bool" where
  "sub_event E interval comments e \<longleftrightarrow>
     ENABLE_GET_SUB_COMMENTS E \<and>
     (\<exists>parent\<in>set comments. sub_comment_count parent \<noteq> 0 \<and> child_event E interval parent e)"

subsection \<open>Sequences of root-comment pages\<close>

text \<open>
  A page as the root walk reads it: the payload, and what \<open>read_page\<close> makes of it.
\<close>

record page_view =
  p_json :: json
  p_is_end :: json
  p_offset :: string
  p_comments :: "comment list"

text \<open>
  Exchange number \<open>t\<close> serves the page: whatever is asked, the answer is a response that
  \<open>request\<close> turns into this non-empty payload, and the payload reads as the view says,
  with at least one comment.
\<close>

definition serves :: "env \<Rightarrow> content \<Rightarrow> nat \<Rightarrow> page_view \<Rightarrow> bool" where
  "serves E c t pg \<longleftrightarrow>
     (\<forall>m url h. \<exists>r. net E t m url h = Response r \<and>
        interpret_response False r = Inr (Json (p_json pg))) \<and>
     truthy (p_json pg) \<and>
     read_page E c (p_json pg) = Inr (p_is_end pg, p_offset pg, p_comments pg) \<and>
     p_comments pg \<noteq> []"

definition accepts :: "callback \<Rightarrow> comment list \<Rightarrow> bool" where
  "accepts cb cs = (case cb of None \<Rightarrow> True | Some f \<Rightarrow> f cs = None)"

text \<open>
  The pages are served to the root walk that starts in \<open>s\<close>: the next exchange serves the
  first page, only the last page is marked as the end, the callback takes the page's
  comments, the child walk for them returns (from the state the root walk has then: one
  exchange later, the default headers as they were), and the rest of the pages is served
  from the state that the child walk and the delay leave.
\<close>

fun page_run ::
  "nat \<Rightarrow> env \<Rightarrow> client \<Rightarrow> content \<Rightarrow> real \<Rightarrow> callback \<Rightarrow> world \<Rightarrow> page_view list \<Rightarrow> bool" where
  "page_run fuel E cl c d cb s [] = True"
| "page_run fuel E cl c d cb s (pg # pgs) =
     (serves E c (calls s) pg \<and> (truthy (p_is_end pg) \<longleftrightarrow> pgs = []) \<and> accepts cb (p_comments pg) \<and>
      (\<forall>s3. calls s3 = Suc (calls s) \<and>
            heap s3 (default_headers cl) = heap s (default_headers cl) \<and>
            default_headers cl < next_addr s3 \<longrightarrow>
         (\<exists>x s4. get_comments_all_sub_comments fuel E cl c (p_comments pg) d cb s3 = (Some (Inr x), s4) \<and>
                 page_run (fuel - 1) E cl c d cb (emit (SleepE Root d) s4) pgs)))"

text \<open>Consecutive exchanges serve the pages of one walk; only the last is marked as the end.\<close>

fun served_in_a_row :: "env \<Rightarrow> content \<Rightarrow> nat \<Rightarrow> page_view list \<Rightarrow> bool" where
  "served_in_a_row E c t [] = True"
| "served_in_a_row E c t (pg # pgs) =
     (serves E c t pg \<and> (truthy (p_is_end pg) \<longleftrightarrow> pgs = []) \<and> served_in_a_row E c (Suc t) pgs)"

text \<open>The offsets a walk must ask with: the given one first, then each page's own.\<close>

fun offsets_asked :: "string \<Rightarrow> page_view list \<Rightarrow> string list" where
  "offsets_asked offset [] = []"
| "offsets_asked offset (pg # pgs) = offset # offsets_asked (p_offset pg) pgs"

text \<open>
  The trace of the root walk over the pages, asked from \<open>offset\<close> on: for each page one
  signed request of the root route with the offset at hand, the page, the callback if
  there is one, the extend, the events of the child walk for the page's comments, and the
  delay; the next page is asked with the offset of this one.
\<close>

fun root_trace ::
  "env \<Rightarrow> content \<Rightarrow> real \<Rightarrow> bool \<Rightarrow> string \<Rightarrow> page_view list \<Rightarrow> event list \<Rightarrow> bool" where
  "root_trace E c d hc offset [] tr = (tr = [])"
| "root_trace E c d hc offset (pg # pgs) tr =
     (\<exists>ck h ch rest.
        tr = [SignE (root_route E c offset) ck,
              HttpE ''GET'' (ZHIHU_URL E @ root_route E c offset) h,
              PageE Root (p_json pg)] @
             (if hc then [CallbackE (p_comments pg)] else []) @
             [ExtendE Root (p_comments pg)] @ ch @ [SleepE Root d] @ rest \<and>
        (\<forall>e\<in>set ch. sub_event E d (p_comments pg) e) \<and>
        root_trace E c d hc (p_offset pg) pgs rest)"

definition http_urls :: "event list \<Rightarrow> string list" where
  "http_urls tr = concat (map (\<lambda>e. case e of HttpE m url h \<Rightarrow> [url] | _ \<Rightarrow> []) tr)"

text \<open>The two-page fixture of the specification.\<close>

definition cmt :: "string \<Rightarrow> comment" where
  "cmt i = \<lparr>comment_id = i, sub_comment_count = 0\<rparr>"

definition raw_page :: "string list \<Rightarrow> string \<Rightarrow> bool \<Rightarrow> json" where
  "raw_page ids offset is_end =
     JDict [(''data'', JList (map (\<lambda>i. JDict [(''id'', JStr i)]) ids)),
            (''paging'', JDict [(''offset'', JStr offset), (''is_end'', JBool is_end)])]"

definition view :: "string list \<Rightarrow> string \<Rightarrow> bool \<Rightarrow> page_view" where
  "view ids offset is_end =
     \<lparr>p_json = raw_page ids offset is_end, p_is_end = JBool is_end, p_offset = offset,
      p_comments = map cmt ids\<rparr>"

definition answer42 :: content where
  "answer42 = \<lparr>content_id = ''42'', content_type = ''answer''\<rparr>"

subsection \<open>The shape of a walk's trace\<close>

text \<open>
  The comments a walk takes from a payload: none from a falsy one, else what
  \<open>read_page\<close> extracts.
\<close>

definition page_comments :: "env \<Rightarrow> content \<Rightarrow> json \<Rightarrow> comment list" where
  "page_comments E c j =
     (if \<not> truthy j then []
      else case read_page E c j of Inl e \<Rightarrow> [] | Inr (is_end, offset, comments) \<Rightarrow> comments)"

definition is_transport :: "event \<Rightarrow> bool" where
  "is_transport e =
     (case e of SignE url cookie \<Rightarrow> True | HttpE m url h \<Rightarrow> True | WaitE \<Rightarrow> True | _ \<Rightarrow> False)"

text \<open>The events that belong to the page loop of walk \<open>w\<close>.\<close>

definition tagged :: "walk \<Rightarrow> event \<Rightarrow> bool" where
  "tagged w e =
     (case e of PageE w' j \<Rightarrow> w' = w | ExtendE w' cs \<Rightarrow> w' = w | SleepE w' d \<Rightarrow> w' = w | _ \<Rightarrow> False)"

definition payloads :: "walk \<Rightarrow> event list \<Rightarrow> json list" where
  "payloads w tr = concat (map (\<lambda>e. case e of PageE w' j \<Rightarrow> if w' = w then [j] else [] | _ \<Rightarrow> []) tr)"

text \<open>
  The shape of the trace of a page loop, with the accumulator it starts from and its
  outcome.  \<open>nested cs ch fin\<close> is the trace \<open>ch\<close> of what the loop runs between the extend
  and the sleep for the page's comments \<open>cs\<close>, and whether that returned.
\<close>

inductive walk_tr ::
  "walk \<Rightarrow> real \<Rightarrow> bool \<Rightarrow> (json \<Rightarrow> comment list) \<Rightarrow> (comment list \<Rightarrow> event list \<Rightarrow> bool \<Rightarrow> bool) \<Rightarrow>
   comment list \<Rightarrow> event list \<Rightarrow> (error + comment list) option \<Rightarrow> bool"
  for w d hc pc nested where
  wt_done: "walk_tr w d hc pc nested acc [] (Some (Inr acc))"
| wt_fuel: "walk_tr w d hc pc nested acc [] None"
| wt_get: "\<forall>e\<in>set g. is_transport e \<Longrightarrow> walk_tr w d hc pc nested acc g (Some (Inl x))"
| wt_stop: "\<forall>e\<in>set g. is_transport e \<Longrightarrow> pc j = [] \<Longrightarrow>
     walk_tr w d hc pc nested acc (g @ [PageE w j]) (Some (Inr acc))"
| wt_page: "\<forall>e\<in>set g. is_transport e \<Longrightarrow>
     walk_tr w d hc pc nested acc (g @ [PageE w j]) (Some (Inl x))"
| wt_callback: "\<forall>e\<in>set g. is_transport e \<Longrightarrow> hc \<Longrightarrow> pc j \<noteq> [] \<Longrightarrow>
     walk_tr w d hc pc nested acc (g @ [PageE w j, CallbackE (pc j)]) (Some (Inl x))"
| wt_nested: "\<forall>e\<in>set g. is_transport e \<Longrightarrow> pc j \<noteq> [] \<Longrightarrow> nested (pc j) ch False \<Longrightarrow>
     \<forall>a. r \<noteq> Some (Inr a) \<Longrightarrow>
     walk_tr w d hc pc nested acc
       (g @ [PageE w j] @ (if hc then [CallbackE (pc j)] else []) @ [ExtendE w (pc j)] @ ch) r"
| wt_next: "\<forall>e\<in>set g. is_transport e \<Longrightarrow> pc j \<noteq> [] \<Longrightarrow> nested (pc j) ch True \<Longrightarrow>
     walk_tr w d hc pc nested (acc @ pc j) rest r \<Longrightarrow>
     walk_tr w d hc pc nested acc
       (g @ [PageE w j] @ (if hc then [CallbackE (pc j)] else []) @ [ExtendE w (pc j)] @ ch @
        [SleepE w d] @ rest) r"

text \<open>The walk of one parent's replies runs nothing between its extend and its sleep.\<close>

definition no_nested :: "comment list \<Rightarrow> event list \<Rightarrow> bool \<Rightarrow> bool" where
  "no_nested cs ch fin \<longleftrightarrow> ch = [] \<and> fin"

text \<open>The trace of the loop over the parents: the walks of the parents, one after another.\<close>

inductive subs_tr ::
  "real \<Rightarrow> bool \<Rightarrow> (json \<Rightarrow> comment list) \<Rightarrow> comment list \<Rightarrow> event list \<Rightarrow>
   (error + comment list) option \<Rightarrow> bool"
  for d hc pc where
  st_done: "subs_tr d hc pc acc [] (Some (Inr acc))"
| st_abort: "walk_tr Child d hc pc no_nested acc tr r \<Longrightarrow> \<forall>a. r \<noteq> Some (Inr a) \<Longrightarrow>
     subs_tr d hc pc acc tr r"
| st_next: "walk_tr Child d hc pc no_nested acc tr (Some (Inr acc')) \<Longrightarrow> subs_tr d hc pc acc' rest r \<Longrightarrow>
     subs_tr d hc pc acc (tr @ rest) r"

text \<open>What the root walk runs for a page: the child walk, from an empty accumulator.\<close>

definition sub_nested ::
  "real \<Rightarrow> bool \<Rightarrow> (json \<Rightarrow> comment list) \<Rightarrow> comment list \<Rightarrow> event list \<Rightarrow> bool \<Rightarrow> bool" where
  "sub_nested d hc pc cs ch fin \<longleftrightarrow> (\<exists>r. subs_tr d hc pc [] ch r \<and> (fin \<longleftrightarrow> (\<exists>a. r = Some (Inr a))))"

subsection \<open>Delays and callbacks in a trace\<close>

text \<open>
  Where a page loop stands, read off its trace: \<open>Ready\<close> to fetch (at the start, or after
  the delay), \<open>Fetched\<close> a page that is not appended, \<open>Extended\<close> the accumulator by the
  page but not yet slept.  Any other order of the loop's events is \<open>Broken\<close>.
\<close>

datatype phase = Ready | Fetched | Extended | Broken

fun phase_step :: "walk \<Rightarrow> real \<Rightarrow> phase \<Rightarrow> event \<Rightarrow> phase" where
  "phase_step w d q (PageE w' j) =
     (if w' \<noteq> w then q else if q = Ready then Fetched else Broken)"
| "phase_step w d q (ExtendE w' cs) =
     (if w' \<noteq> w then q else if q = Fetched then Extended else Broken)"
| "phase_step w d q (SleepE w' d') =
     (if w' \<noteq> w then q else if q = Extended \<and> d' = d then Ready else Broken)"
| "phase_step w d q e = q"

definition phase_after :: "walk \<Rightarrow> real \<Rightarrow> event list \<Rightarrow> phase" where
  "phase_after w d tr = foldl (phase_step w d) Ready tr"

text \<open>
  The callback against the accumulator: \<open>Called cs\<close> after a callback with \<open>cs\<close> that no
  extend has followed yet.  \<open>Wrong\<close>: a callback with an empty list, or without a callback
  being supplied, or followed by anything but the extend with the same list; or, when a
  callback is supplied, an extend that no callback precedes.
\<close>

datatype cb_phase = Idle | Called "comment list" | Wrong

fun cb_step :: "bool \<Rightarrow> cb_phase \<Rightarrow> event \<Rightarrow> cb_phase" where
  "cb_step hc Idle (CallbackE cs) = (if hc \<and> cs \<noteq> [] then Called cs else Wrong)"
| "cb_step hc Idle (ExtendE w cs) = (if hc then Wrong else Idle)"
| "cb_step hc Idle e = Idle"
| "cb_step hc (Called cs) (ExtendE w cs') = (if cs' = cs then Idle else Wrong)"
| "cb_step hc (Called cs) e = Wrong"
| "cb_step hc Wrong e = Wrong"

definition cb_after :: "bool \<Rightarrow> event list \<Rightarrow> cb_phase" where
  "cb_after hc tr = foldl (cb_step hc) Idle tr"

text \<open>A page whose comments name how many replies they have.\<close>

definition counted_page :: "(string \<times> int) list \<Rightarrow> string \<Rightarrow> bool \<Rightarrow> json" where
  "counted_page ids offset is_end =
     JDict [(''data'', JList (map (\<lambda>(i, k). JDict [(''id'', JStr i), (''child_comment_count'', JInt k)]) ids)),
            (''paging'', JDict [(''offset'', JStr offset), (''is_end'', JBool is_end)])]"

definition counted :: "string \<times> int \<Rightarrow> comment" where
  "counted ik = \<lparr>comment_id = fst ik, sub_comment_count = snd ik\<rparr>"

definition counted_view :: "(string \<times> int) list \<Rightarrow> string \<Rightarrow> bool \<Rightarrow> page_view" where
  "counted_view ids offset is_end =
     \<lparr>p_json = counted_page ids offset is_end, p_is_end = JBool is_end, p_offset = offset,
      p_comments = map counted ids\<rparr>"

text \<open>Two root pages, the first with a comment that has one reply, and the page of that reply.\<close>

definition replied_pages :: "http_outcome list" where
  "replied_pages =
     [ok (counted_page [(''c1'', 1), (''c2'', 0)] ''o1'' False),
      ok (counted_page [(''s1'', 0)] ''p1'' True),
      ok (counted_page [(''c3'', 0)] ''o2'' True)]"

text \<open>
  The delays of walk \<open>w\<close> in a trace: between two page fetches there is a delay; after
  a page fetch the walk does nothing more, or its next event is the extend by that page
  (so no delay directly follows a page that is not appended); and in a walk that
  returned, a delay follows every extend.
\<close>

definition delays_ok :: "walk \<Rightarrow> real \<Rightarrow> bool \<Rightarrow> event list \<Rightarrow> bool" where
  "delays_ok w d returned tr \<longleftrightarrow>
     (\<forall>a j m j' b. tr = a @ PageE w j # m @ PageE w j' # b \<longrightarrow> SleepE w d \<in> set m) \<and>
     (\<forall>a j b. tr = a @ PageE w j # b \<longrightarrow>
        (\<forall>e\<in>set b. \<not> tagged w e) \<or>
        (\<exists>b1 cs b2. b = b1 @ ExtendE w cs # b2 \<and> (\<forall>e\<in>set b1. \<not> tagged w e))) \<and>
     (returned \<longrightarrow> (\<forall>a cs b. tr = a @ ExtendE w cs # b \<longrightarrow> SleepE w d \<in> set b))"

text \<open>
  The callbacks in a trace: a callback needs a callback to be supplied, gets a non-empty
  list, and is followed at once by the extend with that list, unless the trace ends
  there and the run has not returned; with a callback supplied, every extend comes
  right after the callback with its list.
\<close>

definition callbacks_ok :: "bool \<Rightarrow> bool \<Rightarrow> event list \<Rightarrow> bool" where
  "callbacks_ok hc returned tr \<longleftrightarrow>
     (\<forall>a cs b. tr = a @ CallbackE cs # b \<longrightarrow>
        hc \<and> cs \<noteq> [] \<and> (b = [] \<and> \<not> returned \<or> (\<exists>w b'. b = ExtendE w cs # b'))) \<and>
     (hc \<longrightarrow> (\<forall>a w cs b. tr = a @ ExtendE w cs # b \<longrightarrow> (\<exists>a'. a = a' @ [CallbackE cs])))"

definition returned :: "'a walk_result \<Rightarrow> bool" where
  "returned R = (case fst R of Some (Inr x) \<Rightarrow> True | _ \<Rightarrow> False)"

text \<open>A root comment with one reply, and the page of that reply.\<close>

definition reply_script :: "http_outcome list" where
  "reply_script = [ok (counted_page [(''c1'', 1)] ''o1'' True), ok (counted_page [(''s1'', 0)] ''p1'' True)]"

definition two_pages :: "http_outcome list" where
  "two_pages = [ok (raw_page [''c1'', ''c2''] ''o1'' False), ok (raw_page [''c3''] ''o2'' True)]"

section \<open>The store and the trace under a signed GET\<close>

text \<open>The events a signed GET of route \<open>u\<close> can produce.\<close>

definition get_event :: "env \<Rightarrow> string \<Rightarrow> event \<Rightarrow> bool" where
  "get_event E u e =
     (case e of
        SignE url cookie \<Rightarrow> url = u
      | HttpE m url h \<Rightarrow> m = ''GET'' \<and> url = ZHIHU_URL E @ u
      | WaitE \<Rightarrow> True
      | _ \<Rightarrow> False)"

lemma pre_headers_heap:
  "default_headers cl < next_addr s \<Longrightarrow> pre_headers E cl url s = (r, s') \<Longrightarrow>
   heap s' (default_headers cl) = heap s (default_headers cl) \<and> next_addr s \<le> next_addr s'"
  by (auto simp: pre_headers_def copy_dict_def set_item_def emit_def Let_def subscript_def
      split: option.splits if_splits sum.splits)

lemma request_attempt_heap:
  "request_attempt E m url h rr s = (r, s') \<Longrightarrow> heap s' = heap s \<and> next_addr s' = next_addr s"
  by (auto simp: request_attempt_def emit_def Let_def split: http_outcome.splits)

lemma retry_heap:
  assumes "\<And>s r s'. f s = (r, s') \<Longrightarrow> heap s' = heap s \<and> next_addr s' = next_addr s"
  shows "retry n f s = (r, s') \<Longrightarrow> heap s' = heap s \<and> next_addr s' = next_addr s"
proof (induction n arbitrary: s)
  case 0
  then show ?case using assms by (auto split: prod.splits sum.splits)
next
  case (Suc n)
  obtain a s1 where fs: "f s = (a, s1)" by (cases "f s")
  show ?case
  proof (cases a)
    case (Inl e)
    with Suc.prems fs have "retry n f (emit WaitE s1) = (r, s')" by simp
    from Suc.IH[OF this] assms[OF fs] show ?thesis by (simp add: emit_def)
  next
    case (Inr v)
    with Suc.prems fs assms[OF fs] show ?thesis by simp
  qed
qed

lemma request_heap:
  "request E m url h rr s = (r, s') \<Longrightarrow> heap s' = heap s \<and> next_addr s' = next_addr s"
  unfolding request_def by (rule retry_heap[OF request_attempt_heap])

lemma get_heap:
  "default_headers cl < next_addr s \<Longrightarrow> get E cl uri params s = (r, s') \<Longrightarrow>
   heap s' (default_headers cl) = heap s (default_headers cl) \<and> next_addr s \<le> next_addr s'"
  by (auto simp: get_def split: prod.splits sum.splits dest!: pre_headers_heap request_heap)

lemma pre_headers_trace:
  "pre_headers E cl u s = (r, s') \<Longrightarrow> \<exists>tr. log s' = log s @ tr \<and> (\<forall>e\<in>set tr. get_event E u e)"
  by (auto simp: pre_headers_def copy_dict_def set_item_def emit_def Let_def subscript_def get_event_def
      split: option.splits if_splits sum.splits)

lemma request_attempt_trace:
  "request_attempt E ''GET'' (ZHIHU_URL E @ u) h rr s = (r, s') \<Longrightarrow>
   \<exists>tr. log s' = log s @ tr \<and> (\<forall>e\<in>set tr. get_event E u e)"
  by (auto simp: request_attempt_def emit_def Let_def get_event_def split: http_outcome.splits)

lemma retry_trace:
  assumes "\<And>s r s'. f s = (r, s') \<Longrightarrow> \<exists>tr. log s' = log s @ tr \<and> (\<forall>e\<in>set tr. P e)"
    and "P WaitE"
  shows "retry n f s = (r, s') \<Longrightarrow> \<exists>tr. log s' = log s @ tr \<and> (\<forall>e\<in>set tr. P e)"
proof (induction n arbitrary: s)
  case 0
  then show ?case using assms(1)[of s] by (auto split: prod.splits sum.splits)
next
  case (Suc n)
  obtain a s1 where fs: "f s = (a, s1)" by (cases "f s")
  from assms(1)[OF fs] obtain tr1 where t1: "log s1 = log s @ tr1" "\<forall>e\<in>set tr1. P e" by blast
  show ?case
  proof (cases a)
    case (Inl e)
    with Suc.prems fs have "retry n f (emit WaitE s1) = (r, s')" by simp
    from Suc.IH[OF this] obtain tr2 where "log s' = log (emit WaitE s1) @ tr2" "\<forall>e\<in>set tr2. P e" by blast
    with t1 assms(2) have "log s' = log s @ (tr1 @ WaitE # tr2) \<and> (\<forall>e\<in>set (tr1 @ WaitE # tr2). P e)"
      by (auto simp: emit_def)
    then show ?thesis by blast
  next
    case (Inr v)
    with Suc.prems fs t1 show ?thesis by auto
  qed
qed

lemma get_trace:
  assumes "get E cl uri params s = (r, s')"
  shows "\<exists>tr. log s' = log s @ tr \<and> (\<forall>e\<in>set tr. get_event E (final_uri E uri params) e)"
proof -
  let ?u = "final_uri E uri params"
  obtain a s1 where ph: "pre_headers E cl ?u s = (a, s1)" by (cases "pre_headers E cl ?u s")
  from pre_headers_trace[OF ph] obtain tr1 where t1: "log s1 = log s @ tr1" "\<forall>e\<in>set tr1. get_event E ?u e" by blast
  show ?thesis
  proof (cases a)
    case (Inl e)
    with assms ph t1 show ?thesis by (auto simp: get_def)
  next
    case (Inr h)
    with assms ph have rq: "request E ''GET'' (ZHIHU_URL E @ ?u) h False s1 = (r, s')"
      by (simp add: get_def)
    have "\<exists>tr. log s' = log s1 @ tr \<and> (\<forall>e\<in>set tr. get_event E ?u e)"
    proof (rule retry_trace[where P="get_event E ?u"])
      show "retry 2 (request_attempt E ''GET'' (ZHIHU_URL E @ ?u) h False) s1 = (r, s')"
        using rq by (simp add: request_def)
    qed (erule request_attempt_trace, simp add: get_event_def)
    then obtain tr2 where "log s' = log s1 @ tr2" "\<forall>e\<in>set tr2. get_event E ?u e" by blast
    with t1 have "log s' = log s @ (tr1 @ tr2) \<and> (\<forall>e\<in>set (tr1 @ tr2). get_event E ?u e)" by auto
    then show ?thesis by blast
  qed
qed

lemma interpret_403:
  "status_code r = 403 \<Longrightarrow> interpret_response rr r = Inl (ForbiddenError (resp_text r))"
  by (simp add: interpret_response_def)

lemma interpret_404:
  "status_code r = 404 \<Longrightarrow> interpret_response rr r = Inr (Json (JDict []))"
  by (simp add: interpret_response_def)

section \<open>Transport and signing failures\<close>

text \<open>
  C2, as the code has it.  An attempt that receives a 403 raises \<open>ForbiddenError\<close> with the
  body of that response, which is not \<open>DataFetchError\<close>; tenacity treats it as any
  exception: with attempts left it waits and runs the next attempt, whose outcome decides,
  and on the last attempt it raises \<open>RetryError\<close> around it.  So a 403 followed by an
  answer that \<open>request\<close> accepts gives that answer after two exchanges, and three 403s
  give \<open>RetryError\<close> around the \<open>ForbiddenError\<close> of the third, after three exchanges and
  two waits.
\<close>

theorem request_forbidden_retried:
  assumes "net E (calls s) m url (heap s h) = Response r0" and "status_code r0 = 403"
  shows "request_attempt E m url h rr s =
           (Inl (ForbiddenError (resp_text r0)), (emit (HttpE m url (heap s h)) s)\<lparr>calls := Suc (calls s)\<rparr>) \<and>
         (\<forall>n. retry (Suc n) (request_attempt E m url h rr) s =
               retry n (request_attempt E m url h rr)
                 (emit WaitE ((emit (HttpE m url (heap s h)) s)\<lparr>calls := Suc (calls s)\<rparr>))) \<and>
         retry 0 (request_attempt E m url h rr) s =
           (Inl (RetryError (ForbiddenError (resp_text r0))),
            (emit (HttpE m url (heap s h)) s)\<lparr>calls := Suc (calls s)\<rparr>) \<and>
         request E m url h rr s =
           retry 1 (request_attempt E m url h rr)
             (emit WaitE ((emit (HttpE m url (heap s h)) s)\<lparr>calls := Suc (calls s)\<rparr>)) \<and>
         (\<forall>r1 p. net E (Suc (calls s)) m url (heap s h) = Response r1 \<and>
                 interpret_response rr r1 = Inr p \<longrightarrow>
            request E m url h rr s =
              (Inr p, s\<lparr>log := log s @ [HttpE m url (heap s h), WaitE, HttpE m url (heap s h)],
                        calls := calls s + 2\<rparr>)) \<and>
         (\<forall>r1 r2. net E (Suc (calls s)) m url (heap s h) = Response r1 \<and> status_code r1 = 403 \<and>
                  net E (Suc (Suc (calls s))) m url (heap s h) = Response r2 \<and> status_code r2 = 403 \<longrightarrow>
            request E m url h rr s =
              (Inl (RetryError (ForbiddenError (resp_text r2))),
               s\<lparr>log := log s @ [HttpE m url (heap s h), WaitE, HttpE m url (heap s h), WaitE,
                                 HttpE m url (heap s h)],
                 calls := calls s + 3\<rparr>))"
proof -
  have att: "request_attempt E m url h rr s =
      (Inl (ForbiddenError (resp_text r0)), (emit (HttpE m url (heap s h)) s)\<lparr>calls := Suc (calls s)\<rparr>)"
    using assms by (simp add: request_attempt_def Let_def interpret_403)
  have more: "retry (Suc n) (request_attempt E m url h rr) s =
      retry n (request_attempt E m url h rr)
        (emit WaitE ((emit (HttpE m url (heap s h)) s)\<lparr>calls := Suc (calls s)\<rparr>))" for n
    by (simp add: att)
  have stop: "retry 0 (request_attempt E m url h rr) s =
      (Inl (RetryError (ForbiddenError (resp_text r0))),
       (emit (HttpE m url (heap s h)) s)\<lparr>calls := Suc (calls s)\<rparr>)"
    by (simp add: att)
  have req: "request E m url h rr s =
      retry 1 (request_attempt E m url h rr)
        (emit WaitE ((emit (HttpE m url (heap s h)) s)\<lparr>calls := Suc (calls s)\<rparr>))"
    unfolding request_def numeral_2_eq_2 One_nat_def by (rule more)
  have good: "request E m url h rr s =
      (Inr p, s\<lparr>log := log s @ [HttpE m url (heap s h), WaitE, HttpE m url (heap s h)],
                calls := calls s + 2\<rparr>)"
    if "net E (Suc (calls s)) m url (heap s h) = Response r1" "interpret_response rr r1 = Inr p"
    for r1 p
    using that by (simp add: req request_attempt_def Let_def emit_def)
  have bad: "request E m url h rr s =
      (Inl (RetryError (ForbiddenError (resp_text r2))),
       s\<lparr>log := log s @ [HttpE m url (heap s h), WaitE, HttpE m url (heap s h), WaitE,
                         HttpE m url (heap s h)],
         calls := calls s + 3\<rparr>)"
    if "net E (Suc (calls s)) m url (heap s h) = Response r1" "status_code r1 = 403"
      "net E (Suc (Suc (calls s))) m url (heap s h) = Response r2" "status_code r2 = 403"
    for r1 r2
    using that by (simp add: req request_attempt_def Let_def emit_def interpret_403)
  from att more stop req good bad show ?thesis by blast
qed

theorem request_forbidden_retried_witness:
  "request (demo_env demo_sign False [status 403 ''a'', status 403 ''b'', status 403 ''c''])
     ''GET'' ''u'' 0 False demo_world =
   (Inl (RetryError (ForbiddenError ''c'')),
    demo_world\<lparr>log := [HttpE ''GET'' ''u'' [(''cookie'', ''d_c0=AAAA'')], WaitE,
                       HttpE ''GET'' ''u'' [(''cookie'', ''d_c0=AAAA'')], WaitE,
                       HttpE ''GET'' ''u'' [(''cookie'', ''d_c0=AAAA'')]],
               calls := 3\<rparr>) \<and>
   request (demo_env demo_sign False [status 403 ''a'', ok (JDict [(''uid'', JStr ''7'')])])
     ''GET'' ''u'' 0 False demo_world =
   (Inr (Json (JDict [(''uid'', JStr ''7'')])),
    demo_world\<lparr>log := [HttpE ''GET'' ''u'' [(''cookie'', ''d_c0=AAAA'')], WaitE,
                       HttpE ''GET'' ''u'' [(''cookie'', ''d_c0=AAAA'')]],
               calls := 2\<rparr>)"
proof -
  let ?E = "demo_env demo_sign False [status 403 ''a'', status 403 ''b'', status 403 ''c'']"
  let ?F = "demo_env demo_sign False [status 403 ''a'', ok (JDict [(''uid'', JStr ''7'')])]"
  let ?r = "\<lambda>b. \<lparr>status_code = 403, resp_text = b, json_body = None\<rparr>"
  have e0: "net ?E (calls demo_world) ''GET'' ''u'' (heap demo_world 0) = Response (?r ''a'')"
    and e1: "net ?E (Suc (calls demo_world)) ''GET'' ''u'' (heap demo_world 0) = Response (?r ''b'')"
    and e2: "net ?E (Suc (Suc (calls demo_world))) ''GET'' ''u'' (heap demo_world 0) = Response (?r ''c'')"
    by (simp_all add: demo_env_def script_def status_def demo_world_def)
  have f0: "net ?F (calls demo_world) ''GET'' ''u'' (heap demo_world 0) = Response (?r ''a'')"
    and f1: "net ?F (Suc (calls demo_world)) ''GET'' ''u'' (heap demo_world 0) =
        Response \<lparr>status_code = 200, resp_text = [], json_body = Some (JDict [(''uid'', JStr ''7'')])\<rparr>"
    by (simp_all add: demo_env_def script_def status_def ok_def demo_world_def)
  have st: "status_code (?r b) = 403" for b by simp
  have i1: "interpret_response False
      \<lparr>status_code = 200, resp_text = [], json_body = Some (JDict [(''uid'', JStr ''7'')])\<rparr> =
      Inr (Json (JDict [(''uid'', JStr ''7'')]))"
    by (simp add: interpret_response_def)
  from request_forbidden_retried[OF e0 st, of False] e1 e2
  have "request ?E ''GET'' ''u'' 0 False demo_world =
      (Inl (RetryError (ForbiddenError (resp_text (?r ''c'')))),
       demo_world\<lparr>log := log demo_world @ [HttpE ''GET'' ''u'' (heap demo_world 0), WaitE,
            HttpE ''GET'' ''u'' (heap demo_world 0), WaitE, HttpE ''GET'' ''u'' (heap demo_world 0)],
         calls := calls demo_world + 3\<rparr>)"
    using st by blast
  moreover from request_forbidden_retried[OF f0 st, of False] f1 i1
  have "request ?F ''GET'' ''u'' 0 False demo_world =
      (Inr (Json (JDict [(''uid'', JStr ''7'')])),
       demo_world\<lparr>log := log demo_world @ [HttpE ''GET'' ''u'' (heap demo_world 0), WaitE,
            HttpE ''GET'' ''u'' (heap demo_world 0)],
         calls := calls demo_world + 2\<rparr>)"
    by blast
  ultimately show ?thesis by (simp add: demo_world_def)
qed

text \<open>
  The claim's "never retried" fails: a network that answers 403 each time is asked three
  times, and what reaches the caller is \<open>RetryError\<close>, not the \<open>ForbiddenError\<close> itself.
\<close>

theorem request_forbidden_counterexample:
  "request (demo_env demo_sign False [status 403 ''blocked'', status 403 ''blocked'', status 403 ''blocked''])
     ''GET'' ''u'' 0 False demo_world =
   (Inl (RetryError (ForbiddenError ''blocked'')),
    demo_world\<lparr>log := [HttpE ''GET'' ''u'' [(''cookie'', ''d_c0=AAAA'')], WaitE,
                       HttpE ''GET'' ''u'' [(''cookie'', ''d_c0=AAAA'')], WaitE,
                       HttpE ''GET'' ''u'' [(''cookie'', ''d_c0=AAAA'')]],
               calls := 3\<rparr>)"
  by (simp add: request_def numeral_2_eq_2 request_attempt_def Let_def emit_def demo_env_def
      script_def status_def interpret_response_def demo_world_def)

text \<open>
  C3, as the code has it.  \<open>get\<close> signs before it calls \<open>request\<close>, and only \<open>request\<close>
  is under \<open>retry\<close>: when the signer raises, the request is given up after that one call
  of the signer, nothing is sent, nothing is waited for, and the signer's own exception
  reaches the caller.
\<close>

theorem get_sign_failure_immediate:
  assumes "map_of (cookie_dict cl) ''d_c0'' = Some d" and "d \<noteq> []"
    and "map_of (heap s (default_headers cl)) ''cookie'' = Some ck"
    and "sign E (final_uri E uri params) ck = Inl e"
  shows "get E cl uri params s = (Inl e, s\<lparr>log := log s @ [SignE (final_uri E uri params) ck]\<rparr>)"
  using assms by (simp add: get_def pre_headers_def subscript_def Let_def emit_def)

theorem get_sign_failure_immediate_witness:
  "get (demo_env (\<lambda>u c. Inl (SignError ''js'')) False []) demo_client ''/api/v4/me'' None demo_world =
   (Inl (SignError ''js''), demo_world\<lparr>log := [SignE ''/api/v4/me'' ''d_c0=AAAA'']\<rparr>)"
proof -
  have "map_of (cookie_dict demo_client) ''d_c0'' = Some ''AAAA''" and "''AAAA'' \<noteq> []"
    and "map_of (heap demo_world (default_headers demo_client)) ''cookie'' = Some ''d_c0=AAAA''"
    and "sign (demo_env (\<lambda>u c. Inl (SignError ''js'')) False [])
           (final_uri (demo_env (\<lambda>u c. Inl (SignError ''js'')) False []) ''/api/v4/me'' None) ''d_c0=AAAA''
         = Inl (SignError ''js'')"
    by (simp_all add: demo_client_def demo_world_def demo_env_def)
  from get_sign_failure_immediate[OF this] show ?thesis
    by (simp add: final_uri_def demo_world_def)
qed

text \<open>
  The claim's three attempts fail: with a signer that always raises, the trace of a
  signed GET is the one call of the signer, with no wait and no second call.
\<close>

theorem get_sign_failure_counterexample:
  "get (demo_env (\<lambda>u c. Inl (SignError ''boom'')) False []) demo_client ''/api/v4/me''
     (Some [(''include'', ''email'')]) demo_world =
   (Inl (SignError ''boom''), demo_world\<lparr>log := [SignE ''/api/v4/me?include=email'' ''d_c0=AAAA'']\<rparr>)"
  by (simp add: get_def pre_headers_def subscript_def Let_def emit_def final_uri_def
      demo_env_def demo_client_def demo_world_def)

text \<open>
  C7.  Without \<open>d_c0\<close> in the cookie dictionary a signed GET raises at once and leaves the
  world as it was: no call of the signer, no exchange with the network, no wait.
\<close>

theorem get_missing_cookie_fails_fast:
  "map_of (cookie_dict cl) ''d_c0'' = None \<Longrightarrow> get E cl uri params s = (Inl MissingCookie, s)"
  by (simp add: get_def pre_headers_def)

theorem get_missing_cookie_fails_fast_witness:
  "get (demo_env demo_sign True [ok (JDict [(''uid'', JStr ''1'')])])
     \<lparr>default_headers = 0, cookie_dict = [(''z_c0'', ''token'')]\<rparr> ''/api/v4/me'' None demo_world =
   (Inl MissingCookie, demo_world)"
  by (rule get_missing_cookie_fails_fast) simp

text \<open>
  C8.  The signature headers go into the copy: whatever a signed GET does, the dictionary
  at the address of the default headers is afterwards what it was before.
\<close>

theorem get_keeps_default_headers:
  assumes "default_headers cl < next_addr s" and "get E cl uri params s = (r, s')"
  shows "heap s' (default_headers cl) = heap s (default_headers cl)"
  using get_heap[OF assms] by simp

theorem get_keeps_default_headers_witness:
  "heap (snd (get (demo_env demo_sign False [ok (JDict [(''uid'', JStr ''1'')])]) demo_client
                ''/api/v4/me'' None demo_world)) 0 = [(''cookie'', ''d_c0=AAAA'')]"
proof -
  have "default_headers demo_client < next_addr demo_world"
    by (simp add: demo_client_def demo_world_def)
  from get_keeps_default_headers[OF this, of _ "''/api/v4/me''" None] show ?thesis
    by (simp add: demo_client_def demo_world_def prod_eq_iff)
qed

section \<open>The comment walks\<close>

lemma get_ok:
  assumes ok: "session_ok E cl s"
    and nt: "\<forall>h. \<exists>r. net E (calls s) ''GET'' (ZHIHU_URL E @ final_uri E uri params) h = Response r \<and>
               interpret_response False r = Inr p"
  shows "\<exists>s' ck h. get E cl uri params s = (Inr p, s') \<and> session_ok E cl s' \<and> calls s' = Suc (calls s) \<and>
           log s' = log s @ [SignE (final_uri E uri params) ck, HttpE ''GET'' (ZHIHU_URL E @ final_uri E uri params) h]"
proof -
  let ?u = "final_uri E uri params"
  from ok obtain d ck where d: "map_of (cookie_dict cl) ''d_c0'' = Some d" "d \<noteq> []"
    and ck: "map_of (heap s (default_headers cl)) ''cookie'' = Some ck"
    and sg: "\<forall>u. \<exists>sr v1 v2. sign E u ck = Inr sr \<and> map_of sr ''x-zst-81'' = Some v1 \<and> map_of sr ''x-zse-96'' = Some v2"
    and al: "default_headers cl < next_addr s"
    by (auto simp: session_ok_def)
  from sg obtain sr v1 v2 where sr: "sign E ?u ck = Inr sr" "map_of sr ''x-zst-81'' = Some v1" "map_of sr ''x-zse-96'' = Some v2"
    by blast
  let ?h = "AList.update ''x-zse-96'' v2 (AList.update ''x-zst-81'' v1 (heap s (default_headers cl)))"
  from nt obtain r where r: "net E (calls s) ''GET'' (ZHIHU_URL E @ ?u) ?h = Response r"
    "interpret_response False r = Inr p" by blast
  show ?thesis
    using d ck sr al r sg
    by (simp add: get_def pre_headers_def subscript_def Let_def emit_def copy_dict_def set_item_def
        request_def numeral_2_eq_2 request_attempt_def session_ok_def)
qed

lemma get_child_trace:
  assumes "get_child_comments E cl (comment_id parent) offset s = (a, s1)"
  shows "\<exists>tr. log s1 = log s @ tr \<and> (\<forall>e\<in>set tr. child_event E interval parent e)"
proof -
  from get_trace[OF assms[unfolded get_child_comments_def]]
  obtain tr where "log s1 = log s @ tr"
    "\<forall>e\<in>set tr. get_event E (child_route E (comment_id parent) offset) e"
    by (auto simp: child_route_def)
  moreover have "child_event E interval parent e"
    if "get_event E (child_route E (comment_id parent) offset) e" for e
    using that by (auto simp: get_event_def child_event_def split: event.splits)
  ultimately show ?thesis by blast
qed

lemma run_callback_trace:
  assumes "run_callback cb cs s = (a, s')"
  shows "s' = s \<and> a = Inr () \<and> cb = None \<or> s' = emit (CallbackE cs) s \<and> cb \<noteq> None"
  using assms by (auto simp: run_callback_def split: option.splits)

lemma child_pages_events:
  "child_pages fuel E cl c parent interval cb is_end offset acc s = (r, s') \<Longrightarrow>
   \<exists>tr. log s' = log s @ tr \<and> (\<forall>e\<in>set tr. child_event E interval parent e)"
proof (induction fuel arbitrary: is_end offset acc s)
  case 0
  then show ?case by (auto split: if_splits)
next
  case (Suc n)
  show ?case
  proof (cases "truthy is_end")
    case True
    with Suc.prems show ?thesis by simp
  next
    case False
    obtain a s1 where g: "get_child_comments E cl (comment_id parent) offset s = (a, s1)"
      by (cases "get_child_comments E cl (comment_id parent) offset s")
    from get_child_trace[OF g] obtain tr1 where
      t1: "log s1 = log s @ tr1" "\<forall>e\<in>set tr1. child_event E interval parent e" by blast
    show ?thesis
    proof (cases a)
      case (Inl e)
      with Suc.prems False g t1 show ?thesis by auto
    next
      case (Inr res)
      let ?s2 = "emit (PageE Child (payload_json res)) s1"
      have t2: "log ?s2 = log s @ (tr1 @ [PageE Child (payload_json res)])"
        "\<forall>e\<in>set (tr1 @ [PageE Child (payload_json res)]). child_event E interval parent e"
        using t1 by (auto simp: emit_def child_event_def)
      show ?thesis
      proof (cases "truthy (payload_json res)")
        case f: False
        with Suc.prems False g Inr have "s' = ?s2" by (simp add: Let_def)
        with t2 show ?thesis by blast
      next
        case tr: True
        show ?thesis
        proof (cases "read_page E c (payload_json res)")
          case (Inl e)
          with Suc.prems False g Inr tr have "s' = ?s2" by (simp add: Let_def)
          with t2 show ?thesis by blast
        next
          case rp: (Inr tup)
          obtain ie off cs where tup: "tup = (ie, off, cs)" by (cases tup)
          show ?thesis
          proof (cases "cs = []")
            case True
            with Suc.prems False g Inr tr rp tup have "s' = ?s2" by (simp add: Let_def)
            with t2 show ?thesis by blast
          next
            case ne: False
            obtain b s3 where rc: "run_callback cb cs ?s2 = (b, s3)" by (cases "run_callback cb cs ?s2")
            from run_callback_trace[OF rc] ne t2 obtain tr3 where
              t3: "log s3 = log s @ tr3" "\<forall>e\<in>set tr3. child_event E interval parent e"
              by (auto simp: emit_def child_event_def)
            show ?thesis
            proof (cases b)
              case (Inl e)
              with Suc.prems False g Inr tr rp tup ne rc have "s' = s3" by (simp add: Let_def)
              with t3 show ?thesis by blast
            next
              case u: (Inr u)
              let ?s4 = "emit (SleepE Child interval) (emit (ExtendE Child cs) s3)"
              from Suc.prems False g Inr tr rp tup ne rc u
              have "child_pages n E cl c parent interval cb ie off (acc @ cs) ?s4 = (r, s')"
                by (simp add: Let_def)
              from Suc.IH[OF this] obtain tr4 where
                t4: "log s' = log ?s4 @ tr4" "\<forall>e\<in>set tr4. child_event E interval parent e" by blast
              have "log s' = log s @ (tr3 @ [ExtendE Child cs, SleepE Child interval] @ tr4)"
                using t3 t4 by (simp add: emit_def)
              moreover have "\<forall>e\<in>set (tr3 @ [ExtendE Child cs, SleepE Child interval] @ tr4).
                  child_event E interval parent e"
                using t3 t4 ne by (auto simp: child_event_def)
              ultimately show ?thesis by blast
            qed
          qed
        qed
      qed
    qed
  qed
qed

lemma sub_comments_loop_events:
  "sub_comments_loop fuel E cl c interval cb ps acc s = (r, s') \<Longrightarrow>
   \<exists>tr. log s' = log s @ tr \<and>
     (\<forall>e\<in>set tr. \<exists>parent\<in>set ps. sub_comment_count parent \<noteq> 0 \<and> child_event E interval parent e)"
proof (induction ps arbitrary: acc s)
  case Nil
  then show ?case by simp
next
  case (Cons p ps)
  show ?case
  proof (cases "sub_comment_count p = 0")
    case True
    with Cons.prems have "sub_comments_loop fuel E cl c interval cb ps acc s = (r, s')" by simp
    from Cons.IH[OF this] show ?thesis by auto
  next
    case False
    obtain a s1 where cp: "child_pages fuel E cl c p interval cb (JBool False) [] acc s = (a, s1)"
      by (cases "child_pages fuel E cl c p interval cb (JBool False) [] acc s")
    from child_pages_events[OF cp] obtain tr1 where
      t1: "log s1 = log s @ tr1" "\<forall>e\<in>set tr1. child_event E interval p e" by blast
    show ?thesis
    proof (cases "\<exists>acc'. a = Some (Inr acc')")
      case True
      then obtain acc' where a: "a = Some (Inr acc')" by blast
      with Cons.prems False cp have "sub_comments_loop fuel E cl c interval cb ps acc' s1 = (r, s')" by simp
      from Cons.IH[OF this] obtain tr2 where
        t2: "log s' = log s1 @ tr2"
          "\<forall>e\<in>set tr2. \<exists>parent\<in>set ps. sub_comment_count parent \<noteq> 0 \<and> child_event E interval parent e"
        by blast
      have "log s' = log s @ (tr1 @ tr2)" using t1 t2 by simp
      moreover have "\<forall>e\<in>set (tr1 @ tr2). \<exists>parent\<in>set (p # ps). sub_comment_count parent \<noteq> 0 \<and>
          child_event E interval parent e"
        using t1 t2 False by auto
      ultimately show ?thesis by blast
    next
      case nr: False
      with Cons.prems False cp have "s' = s1" by (auto split: option.splits sum.splits)
      with t1 False show ?thesis by auto
    qed
  qed
qed

lemma sub_comments_events:
  assumes "get_comments_all_sub_comments fuel E cl c comments interval cb s = (r, s')"
  shows "\<exists>tr. log s' = log s @ tr \<and> (\<forall>e\<in>set tr. sub_event E interval comments e)"
proof (cases "ENABLE_GET_SUB_COMMENTS E")
  case True
  with assms have "sub_comments_loop fuel E cl c interval cb comments [] s = (r, s')"
    by (simp add: get_comments_all_sub_comments_def)
  from sub_comments_loop_events[OF this] True show ?thesis by (auto simp: sub_event_def)
next
  case False
  with assms have "s' = s" by (simp add: get_comments_all_sub_comments_def)
  then show ?thesis by simp
qed

lemma sub_comments_loop_zero:
  "\<forall>p\<in>set ps. sub_comment_count p = 0 \<Longrightarrow>
   sub_comments_loop fuel E cl c interval cb ps acc s = (Some (Inr acc), s)"
  by (induction ps) auto

lemma demo_session_ok: "session_ok (demo_env demo_sign flag outs) demo_client demo_world"
  by (simp add: session_ok_def demo_env_def demo_sign_def demo_client_def demo_world_def)

lemma request_404:
  assumes "net E (calls s) m url (heap s h) = Response r" "status_code r = 404"
  shows "request E m url h rr s =
     (Inr (Json (JDict [])), s\<lparr>log := log s @ [HttpE m url (heap s h)], calls := Suc (calls s)\<rparr>)"
  using assms by (simp add: request_def numeral_2_eq_2 request_attempt_def Let_def emit_def interpret_404)

text \<open>
  C5.  A 404 is no exception: \<open>request\<close> returns the empty dictionary after that one
  exchange.  A walk that is still running and is answered 404 makes that one request,
  stops, and returns the comments it had accumulated; this holds for the root walk and for
  the walk of a parent's replies.
\<close>

theorem not_found_ends_walk:
  assumes ok: "session_ok E cl s"
    and nf: "\<forall>m url h. \<exists>r. net E (calls s) m url h = Response r \<and> status_code r = 404"
    and ne: "\<not> truthy is_end"
  shows "(\<forall>m url h rr. request E m url h rr s =
            (Inr (Json (JDict [])), s\<lparr>log := log s @ [HttpE m url (heap s h)], calls := Suc (calls s)\<rparr>)) \<and>
         (\<exists>s' ck h. root_pages (Suc n) E cl c interval cb is_end offset result s = (Some (Inr result), s') \<and>
            log s' = log s @ [SignE (root_route E c offset) ck,
                              HttpE ''GET'' (ZHIHU_URL E @ root_route E c offset) h,
                              PageE Root (JDict [])]) \<and>
         (\<exists>s' ck h. child_pages (Suc n) E cl c parent interval cb is_end offset result s = (Some (Inr result), s') \<and>
            log s' = log s @ [SignE (child_route E (comment_id parent) offset) ck,
                              HttpE ''GET'' (ZHIHU_URL E @ child_route E (comment_id parent) offset) h,
                              PageE Child (JDict [])])"
proof (intro conjI allI)
  fix m url h rr
  from nf obtain r where "net E (calls s) m url (heap s h) = Response r" "status_code r = 404" by blast
  then show "request E m url h rr s =
      (Inr (Json (JDict [])), s\<lparr>log := log s @ [HttpE m url (heap s h)], calls := Suc (calls s)\<rparr>)"
    by (rule request_404)
next
  have "\<forall>h. \<exists>r. net E (calls s) ''GET'' (ZHIHU_URL E @ final_uri E (root_uri c) (Some (comment_params ''sort'' offset ''10''))) h = Response r \<and>
          interpret_response False r = Inr (Json (JDict []))"
    using nf interpret_404 by metis
  from get_ok[OF ok this] obtain s1 ck h where
    "get_root_comments E cl c offset s = (Inr (Json (JDict [])), s1)"
    "log s1 = log s @ [SignE (root_route E c offset) ck, HttpE ''GET'' (ZHIHU_URL E @ root_route E c offset) h]"
    by (auto simp: get_root_comments_def root_route_def)
  then show "\<exists>s' ck h. root_pages (Suc n) E cl c interval cb is_end offset result s = (Some (Inr result), s') \<and>
            log s' = log s @ [SignE (root_route E c offset) ck,
                              HttpE ''GET'' (ZHIHU_URL E @ root_route E c offset) h,
                              PageE Root (JDict [])]"
    using ne by (simp add: emit_def)
next
  have "\<forall>h. \<exists>r. net E (calls s) ''GET'' (ZHIHU_URL E @ final_uri E (child_uri (comment_id parent)) (Some (comment_params ''sort'' offset ''10''))) h = Response r \<and>
          interpret_response False r = Inr (Json (JDict []))"
    using nf interpret_404 by metis
  from get_ok[OF ok this] obtain s1 ck h where
    "get_child_comments E cl (comment_id parent) offset s = (Inr (Json (JDict [])), s1)"
    "log s1 = log s @ [SignE (child_route E (comment_id parent) offset) ck, HttpE ''GET'' (ZHIHU_URL E @ child_route E (comment_id parent) offset) h]"
    by (auto simp: get_child_comments_def child_route_def)
  then show "\<exists>s' ck h. child_pages (Suc n) E cl c parent interval cb is_end offset result s = (Some (Inr result), s') \<and>
            log s' = log s @ [SignE (child_route E (comment_id parent) offset) ck,
                              HttpE ''GET'' (ZHIHU_URL E @ child_route E (comment_id parent) offset) h,
                              PageE Child (JDict [])]"
    using ne by (simp add: emit_def)
qed

theorem not_found_ends_walk_witness:
  "fst (get_note_all_comments 1 (demo_env demo_sign True [status 404 ''{}'']) demo_client
          \<lparr>content_id = ''42'', content_type = ''answer''\<rparr> 1 None demo_world) = Some (Inr [])"
proof -
  have nf: "\<forall>m url h. \<exists>r. net (demo_env demo_sign True [status 404 ''{}'']) (calls demo_world) m url h = Response r \<and>
              status_code r = 404"
    by (simp add: demo_env_def script_def status_def demo_world_def)
  have ne: "\<not> truthy (JBool False)" by simp
  from not_found_ends_walk[OF demo_session_ok nf ne, of 0 "\<lparr>content_id = ''42'', content_type = ''answer''\<rparr>" 1 None "[]" "[]"]
  obtain s' where "root_pages (Suc 0) (demo_env demo_sign True [status 404 ''{}'']) demo_client
      \<lparr>content_id = ''42'', content_type = ''answer''\<rparr> 1 None (JBool False) [] [] demo_world = (Some (Inr []), s')"
    by blast
  then show ?thesis
    by (simp only: get_note_all_comments_def One_nat_def fst_conv)
qed

text \<open>
  C6.  With the configuration flag off, \<open>get_comments_all_sub_comments\<close> returns the empty
  list and touches nothing; so it does when every parent has \<open>sub_comment_count\<close> zero.
  In every run, each HTTP exchange it makes is a GET of the child-comment route of a
  parent of the list whose \<open>sub_comment_count\<close> is not zero, with the flag on.
\<close>

theorem child_endpoint_gated:
  "(\<not> ENABLE_GET_SUB_COMMENTS E \<longrightarrow>
      get_comments_all_sub_comments fuel E cl c comments interval cb s = (Some (Inr []), s)) \<and>
   ((\<forall>p\<in>set comments. sub_comment_count p = 0) \<longrightarrow>
      get_comments_all_sub_comments fuel E cl c comments interval cb s = (Some (Inr []), s)) \<and>
   (\<exists>tr. log (snd (get_comments_all_sub_comments fuel E cl c comments interval cb s)) = log s @ tr \<and>
      (\<forall>m url h. HttpE m url h \<in> set tr \<longrightarrow>
         ENABLE_GET_SUB_COMMENTS E \<and>
         (\<exists>parent\<in>set comments. sub_comment_count parent \<noteq> 0 \<and>
            (\<exists>offset. url = ZHIHU_URL E @ child_route E (comment_id parent) offset))))"
proof (intro conjI impI)
  assume "\<not> ENABLE_GET_SUB_COMMENTS E"
  then show "get_comments_all_sub_comments fuel E cl c comments interval cb s = (Some (Inr []), s)"
    by (simp add: get_comments_all_sub_comments_def)
next
  assume "\<forall>p\<in>set comments. sub_comment_count p = 0"
  then show "get_comments_all_sub_comments fuel E cl c comments interval cb s = (Some (Inr []), s)"
    by (simp add: get_comments_all_sub_comments_def sub_comments_loop_zero)
next
  obtain r s' where run: "get_comments_all_sub_comments fuel E cl c comments interval cb s = (r, s')"
    by (cases "get_comments_all_sub_comments fuel E cl c comments interval cb s")
  from sub_comments_events[OF run] obtain tr where
    tr: "log s' = log s @ tr" "\<forall>e\<in>set tr. sub_event E interval comments e" by blast
  have "ENABLE_GET_SUB_COMMENTS E \<and>
         (\<exists>parent\<in>set comments. sub_comment_count parent \<noteq> 0 \<and>
            (\<exists>offset. url = ZHIHU_URL E @ child_route E (comment_id parent) offset))"
    if "HttpE m url h \<in> set tr" for m url h
    using tr(2)[rule_format, OF that] by (auto simp: sub_event_def child_event_def)
  with tr(1) run show "\<exists>tr. log (snd (get_comments_all_sub_comments fuel E cl c comments interval cb s)) = log s @ tr \<and>
      (\<forall>m url h. HttpE m url h \<in> set tr \<longrightarrow>
         ENABLE_GET_SUB_COMMENTS E \<and>
         (\<exists>parent\<in>set comments. sub_comment_count parent \<noteq> 0 \<and>
            (\<exists>offset. url = ZHIHU_URL E @ child_route E (comment_id parent) offset)))"
    by auto
qed

theorem child_endpoint_gated_witness:
  "get_comments_all_sub_comments 3 (demo_env demo_sign False [ok (JDict [])]) demo_client
      \<lparr>content_id = ''42'', content_type = ''answer''\<rparr>
      [\<lparr>comment_id = ''c1'', sub_comment_count = 2\<rparr>] 1 None demo_world = (Some (Inr []), demo_world) \<and>
   get_comments_all_sub_comments 3 (demo_env demo_sign True [ok (JDict [])]) demo_client
      \<lparr>content_id = ''42'', content_type = ''answer''\<rparr>
      [\<lparr>comment_id = ''c1'', sub_comment_count = 0\<rparr>] 1 None demo_world = (Some (Inr []), demo_world)"
  using child_endpoint_gated[of "demo_env demo_sign False [ok (JDict [])]" 3 demo_client
      "\<lparr>content_id = ''42'', content_type = ''answer''\<rparr>" "[\<lparr>comment_id = ''c1'', sub_comment_count = 2\<rparr>]" 1 None demo_world]
    child_endpoint_gated[of "demo_env demo_sign True [ok (JDict [])]" 3 demo_client
      "\<lparr>content_id = ''42'', content_type = ''answer''\<rparr>" "[\<lparr>comment_id = ''c1'', sub_comment_count = 0\<rparr>]" 1 None demo_world]
  by (simp add: demo_env_def)

subsection \<open>Events and the world; walks that have nothing to do\<close>

lemma session_ok_emit [simp]: "session_ok E cl (emit e s) = session_ok E cl s"
  by (simp add: session_ok_def emit_def)

lemma calls_emit [simp]: "calls (emit e s) = calls s"
  by (simp add: emit_def)

lemma log_emit [simp]: "log (emit e s) = log s @ [e]"
  by (simp add: emit_def)

lemma root_pages_end:
  "truthy is_end \<Longrightarrow> root_pages fuel E cl c interval cb is_end offset result s = (Some (Inr result), s)"
  by (cases fuel) simp_all

lemma no_child_walk:
  "\<not> ENABLE_GET_SUB_COMMENTS E \<or> (\<forall>x\<in>set cs. sub_comment_count x = 0) \<Longrightarrow>
   get_comments_all_sub_comments fuel E cl c cs interval cb s = (Some (Inr []), s)"
  by (auto simp: get_comments_all_sub_comments_def sub_comments_loop_zero)

subsection \<open>Every run has a trace of the walk's shape\<close>

lemma get_transport:
  assumes "get E cl uri params s = (a, s1)"
  shows "\<exists>g. log s1 = log s @ g \<and> (\<forall>e\<in>set g. is_transport e)"
proof -
  from get_trace[OF assms] obtain g where "log s1 = log s @ g"
    "\<forall>e\<in>set g. get_event E (final_uri E uri params) e" by blast
  moreover have "is_transport e" if "get_event E (final_uri E uri params) e" for e
    using that by (auto simp: get_event_def is_transport_def split: event.splits)
  ultimately show ?thesis by blast
qed

lemma page_comments_read:
  "truthy j \<Longrightarrow> read_page E c j = Inr (ie, off, cs) \<Longrightarrow> page_comments E c j = cs"
  by (simp add: page_comments_def)

lemma page_comments_falsy: "\<not> truthy j \<Longrightarrow> page_comments E c j = []"
  by (simp add: page_comments_def)

lemma child_pages_walk_tr:
  "child_pages fuel E cl c parent d cb is_end offset acc s = (r, s') \<Longrightarrow>
   \<exists>tr. log s' = log s @ tr \<and> walk_tr Child d (cb \<noteq> None) (page_comments E c) no_nested acc tr r"
proof (induction fuel arbitrary: is_end offset acc s)
  case 0
  then show ?case by (auto split: if_splits intro: wt_done wt_fuel)
next
  case (Suc n)
  let ?W = "walk_tr Child d (cb \<noteq> None) (page_comments E c) no_nested"
  show ?case
  proof (cases "truthy is_end")
    case True
    with Suc.prems show ?thesis by (auto intro: wt_done)
  next
    case False
    obtain a s1 where g: "get_child_comments E cl (comment_id parent) offset s = (a, s1)"
      by (cases "get_child_comments E cl (comment_id parent) offset s")
    from get_transport[OF g[unfolded get_child_comments_def]] obtain tg where
      t1: "log s1 = log s @ tg" "\<forall>e\<in>set tg. is_transport e" by blast
    show ?thesis
    proof (cases a)
      case (Inl e)
      with Suc.prems False g have "r = Some (Inl e)" "s' = s1" by auto
      with t1 wt_get[OF t1(2)] show ?thesis by blast
    next
      case (Inr res)
      let ?j = "payload_json res"
      let ?s2 = "emit (PageE Child ?j) s1"
      have l2: "log ?s2 = log s @ (tg @ [PageE Child ?j])" using t1 by simp
      show ?thesis
      proof (cases "truthy ?j")
        case f: False
        with Suc.prems False g Inr have "s' = ?s2" "r = Some (Inr acc)" by (simp_all add: Let_def)
        moreover have "?W acc (tg @ [PageE Child ?j]) (Some (Inr acc))"
          using t1(2) page_comments_falsy[OF f, of E c] by (intro wt_stop)
        ultimately show ?thesis using l2 by blast
      next
        case tj: True
        show ?thesis
        proof (cases "read_page E c ?j")
          case (Inl e)
          with Suc.prems False g Inr tj have "s' = ?s2" "r = Some (Inl e)" by (simp_all add: Let_def)
          with l2 wt_page[OF t1(2)] show ?thesis by blast
        next
          case rp: (Inr tup)
          obtain ie off cs where tup: "tup = (ie, off, cs)" by (cases tup)
          have pc: "page_comments E c ?j = cs" using tj rp tup by (simp add: page_comments_read)
          show ?thesis
          proof (cases "cs = []")
            case True
            with Suc.prems False g Inr tj rp tup have "s' = ?s2" "r = Some (Inr acc)" by (simp_all add: Let_def)
            moreover have "?W acc (tg @ [PageE Child ?j]) (Some (Inr acc))"
              using t1(2) pc True by (intro wt_stop) simp_all
            ultimately show ?thesis using l2 by blast
          next
            case ne: False
            obtain b s3 where rc: "run_callback cb cs ?s2 = (b, s3)" by (cases "run_callback cb cs ?s2")
            show ?thesis
            proof (cases b)
              case (Inl e)
              with rc have hc: "cb \<noteq> None" and s3: "s3 = emit (CallbackE cs) ?s2"
                by (auto simp: run_callback_def split: option.splits)
              from Suc.prems False g Inr tj rp tup ne rc Inl have "s' = s3" "r = Some (Inl e)"
                by (simp_all add: Let_def)
              moreover have "log s3 = log s @ (tg @ [PageE Child ?j, CallbackE (page_comments E c ?j)])"
                using s3 l2 pc by simp
              moreover have "?W acc (tg @ [PageE Child ?j, CallbackE (page_comments E c ?j)]) (Some (Inl e))"
                using t1(2) hc ne pc by (intro wt_callback) simp_all
              ultimately show ?thesis by blast
            next
              case u: (Inr u)
              let ?cbs = "if cb \<noteq> None then [CallbackE (page_comments E c ?j)] else []"
              from rc u have l3: "log s3 = log ?s2 @ ?cbs"
                using pc by (auto simp: run_callback_def split: option.splits)
              let ?s4 = "emit (SleepE Child d) (emit (ExtendE Child cs) s3)"
              from Suc.prems False g Inr tj rp tup ne rc u
              have "child_pages n E cl c parent d cb ie off (acc @ cs) ?s4 = (r, s')"
                by (simp add: Let_def)
              from Suc.IH[OF this] obtain rest where
                t4: "log s' = log ?s4 @ rest" "?W (acc @ cs) rest r" by blast
              have nn: "no_nested (page_comments E c ?j) [] True" by (simp add: no_nested_def)
              have "?W acc (tg @ [PageE Child ?j] @ ?cbs @ [ExtendE Child (page_comments E c ?j)] @ [] @
                       [SleepE Child d] @ rest) r"
                using t1(2) ne pc nn t4(2) by (intro wt_next) simp_all
              moreover have "log s' = log s @ (tg @ [PageE Child ?j] @ ?cbs @ [ExtendE Child (page_comments E c ?j)] @ [] @
                       [SleepE Child d] @ rest)"
                using t4(1) l3 l2 pc by simp
              ultimately show ?thesis by blast
            qed
          qed
        qed
      qed
    qed
  qed
qed

lemma sub_comments_loop_subs_tr:
  "sub_comments_loop fuel E cl c d cb ps acc s = (r, s') \<Longrightarrow>
   \<exists>tr. log s' = log s @ tr \<and> subs_tr d (cb \<noteq> None) (page_comments E c) acc tr r"
proof (induction ps arbitrary: acc s)
  case Nil
  then show ?case by (auto intro: st_done)
next
  case (Cons p ps)
  show ?case
  proof (cases "sub_comment_count p = 0")
    case True
    with Cons.prems have "sub_comments_loop fuel E cl c d cb ps acc s = (r, s')" by simp
    from Cons.IH[OF this] show ?thesis .
  next
    case False
    obtain a s1 where cp: "child_pages fuel E cl c p d cb (JBool False) [] acc s = (a, s1)"
      by (cases "child_pages fuel E cl c p d cb (JBool False) [] acc s")
    from child_pages_walk_tr[OF cp] obtain tr1 where
      t1: "log s1 = log s @ tr1" "walk_tr Child d (cb \<noteq> None) (page_comments E c) no_nested acc tr1 a"
      by blast
    show ?thesis
    proof (cases "\<exists>acc'. a = Some (Inr acc')")
      case True
      then obtain acc' where a: "a = Some (Inr acc')" by blast
      with Cons.prems False cp have "sub_comments_loop fuel E cl c d cb ps acc' s1 = (r, s')" by simp
      from Cons.IH[OF this] obtain tr2 where
        t2: "log s' = log s1 @ tr2" "subs_tr d (cb \<noteq> None) (page_comments E c) acc' tr2 r" by blast
      have "log s' = log s @ (tr1 @ tr2)" using t1 t2 by simp
      moreover have "subs_tr d (cb \<noteq> None) (page_comments E c) acc (tr1 @ tr2) r"
        using t1(2) t2(2) a by (auto intro: st_next)
      ultimately show ?thesis by blast
    next
      case nr: False
      with Cons.prems False cp have "s' = s1" "r = a" by (auto split: option.splits sum.splits)
      with t1 nr show ?thesis by (auto intro: st_abort)
    qed
  qed
qed

lemma sub_comments_subs_tr:
  assumes "get_comments_all_sub_comments fuel E cl c comments d cb s = (r, s')"
  shows "\<exists>tr. log s' = log s @ tr \<and> subs_tr d (cb \<noteq> None) (page_comments E c) [] tr r"
proof (cases "ENABLE_GET_SUB_COMMENTS E")
  case True
  with assms have "sub_comments_loop fuel E cl c d cb comments [] s = (r, s')"
    by (simp add: get_comments_all_sub_comments_def)
  from sub_comments_loop_subs_tr[OF this] show ?thesis .
next
  case False
  with assms have "s' = s" "r = Some (Inr [])" by (simp_all add: get_comments_all_sub_comments_def)
  then show ?thesis by (auto intro: st_done)
qed

lemma root_pages_walk_tr:
  "root_pages fuel E cl c d cb is_end offset acc s = (r, s') \<Longrightarrow>
   \<exists>tr. log s' = log s @ tr \<and>
     walk_tr Root d (cb \<noteq> None) (page_comments E c)
       (sub_nested d (cb \<noteq> None) (page_comments E c)) acc tr r"
proof (induction fuel arbitrary: is_end offset acc s)
  case 0
  then show ?case by (auto split: if_splits intro: wt_done wt_fuel)
next
  case (Suc n)
  let ?N = "sub_nested d (cb \<noteq> None) (page_comments E c)"
  let ?W = "walk_tr Root d (cb \<noteq> None) (page_comments E c) ?N"
  show ?case
  proof (cases "truthy is_end")
    case True
    with Suc.prems show ?thesis by (auto intro: wt_done)
  next
    case False
    obtain a s1 where g: "get_root_comments E cl c offset s = (a, s1)"
      by (cases "get_root_comments E cl c offset s")
    from get_transport[OF g[unfolded get_root_comments_def]] obtain tg where
      t1: "log s1 = log s @ tg" "\<forall>e\<in>set tg. is_transport e" by blast
    show ?thesis
    proof (cases a)
      case (Inl e)
      with Suc.prems False g have "r = Some (Inl e)" "s' = s1" by auto
      with t1 wt_get[OF t1(2)] show ?thesis by blast
    next
      case (Inr res)
      let ?j = "payload_json res"
      let ?s2 = "emit (PageE Root ?j) s1"
      have l2: "log ?s2 = log s @ (tg @ [PageE Root ?j])" using t1 by simp
      show ?thesis
      proof (cases "truthy ?j")
        case f: False
        with Suc.prems False g Inr have "s' = ?s2" "r = Some (Inr acc)" by (simp_all add: Let_def)
        moreover have "?W acc (tg @ [PageE Root ?j]) (Some (Inr acc))"
          using t1(2) page_comments_falsy[OF f, of E c] by (intro wt_stop)
        ultimately show ?thesis using l2 by blast
      next
        case tj: True
        show ?thesis
        proof (cases "read_page E c ?j")
          case (Inl e)
          with Suc.prems False g Inr tj have "s' = ?s2" "r = Some (Inl e)" by (simp_all add: Let_def)
          with l2 wt_page[OF t1(2)] show ?thesis by blast
        next
          case rp: (Inr tup)
          obtain ie off cs where tup: "tup = (ie, off, cs)" by (cases tup)
          have pc: "page_comments E c ?j = cs" using tj rp tup by (simp add: page_comments_read)
          show ?thesis
          proof (cases "cs = []")
            case True
            with Suc.prems False g Inr tj rp tup have "s' = ?s2" "r = Some (Inr acc)" by (simp_all add: Let_def)
            moreover have "?W acc (tg @ [PageE Root ?j]) (Some (Inr acc))"
              using t1(2) pc True by (intro wt_stop) simp_all
            ultimately show ?thesis using l2 by blast
          next
            case ne: False
            obtain b s3 where rc: "run_callback cb cs ?s2 = (b, s3)" by (cases "run_callback cb cs ?s2")
            show ?thesis
            proof (cases b)
              case (Inl e)
              with rc have hc: "cb \<noteq> None" and s3: "s3 = emit (CallbackE cs) ?s2"
                by (auto simp: run_callback_def split: option.splits)
              from Suc.prems False g Inr tj rp tup ne rc Inl have "s' = s3" "r = Some (Inl e)"
                by (simp_all add: Let_def)
              moreover have "log s3 = log s @ (tg @ [PageE Root ?j, CallbackE (page_comments E c ?j)])"
                using s3 l2 pc by simp
              moreover have "?W acc (tg @ [PageE Root ?j, CallbackE (page_comments E c ?j)]) (Some (Inl e))"
                using t1(2) hc ne pc by (intro wt_callback) simp_all
              ultimately show ?thesis by blast
            next
              case u: (Inr u)
              let ?cbs = "if cb \<noteq> None then [CallbackE (page_comments E c ?j)] else []"
              from rc u have l3: "log s3 = log ?s2 @ ?cbs"
                using pc by (auto simp: run_callback_def split: option.splits)
              let ?s3' = "emit (ExtendE Root cs) s3"
              obtain q s4 where sub: "get_comments_all_sub_comments (Suc n) E cl c cs d cb ?s3' = (q, s4)"
                by (cases "get_comments_all_sub_comments (Suc n) E cl c cs d cb ?s3'")
              from sub_comments_subs_tr[OF sub] obtain ch where
                t4: "log s4 = log ?s3' @ ch" "subs_tr d (cb \<noteq> None) (page_comments E c) [] ch q" by blast
              let ?pre = "tg @ [PageE Root ?j] @ ?cbs @ [ExtendE Root (page_comments E c ?j)] @ ch"
              have l4: "log s4 = log s @ ?pre" using t4(1) l3 l2 pc by simp
              show ?thesis
              proof (cases "\<exists>x. q = Some (Inr x)")
                case nq: False
                with Suc.prems False g Inr tj rp tup ne rc u sub have "s' = s4" "r = q"
                  by (auto simp: Let_def split: option.splits sum.splits)
                moreover have "?N (page_comments E c ?j) ch False"
                  using t4(2) nq by (auto simp: sub_nested_def)
                then have "?W acc ?pre q"
                  using t1(2) ne pc nq by (intro wt_nested) simp_all
                ultimately show ?thesis using l4 by blast
              next
                case True
                then obtain x where q: "q = Some (Inr x)" by blast
                let ?s5 = "emit (SleepE Root d) s4"
                from Suc.prems False g Inr tj rp tup ne rc u sub q
                have "root_pages n E cl c d cb ie off (acc @ cs) ?s5 = (r, s')"
                  by (simp add: Let_def)
                from Suc.IH[OF this] obtain rest where
                  t5: "log s' = log ?s5 @ rest" "?W (acc @ cs) rest r" by blast
                have "?N (page_comments E c ?j) ch True"
                  using t4(2) q by (auto simp: sub_nested_def)
                then have "?W acc (tg @ [PageE Root ?j] @ ?cbs @ [ExtendE Root (page_comments E c ?j)] @ ch @
                       [SleepE Root d] @ rest) r"
                  using t1(2) ne pc t5(2) by (intro wt_next) simp_all
                moreover have "log s' = log s @ (tg @ [PageE Root ?j] @ ?cbs @ [ExtendE Root (page_comments E c ?j)] @ ch @
                       [SleepE Root d] @ rest)"
                  using t5(1) l4 by simp
                ultimately show ?thesis by blast
              qed
            qed
          qed
        qed
      qed
    qed
  qed
qed

subsection \<open>What the shape gives\<close>

lemma transport_untagged: "is_transport e \<Longrightarrow> \<not> tagged w e"
  by (auto simp: is_transport_def tagged_def split: event.splits)

lemma tagged_simps [simp]:
  "tagged w (PageE w' j) = (w' = w)"
  "tagged w (ExtendE w' cs) = (w' = w)"
  "tagged w (SleepE w' d) = (w' = w)"
  "tagged w (CallbackE cs) = False"
  by (simp_all add: tagged_def)

lemma walk_tr_untagged:
  assumes "walk_tr w d hc pc nested acc tr r" and "w' \<noteq> w"
    and "\<And>cs ch fin. nested cs ch fin \<Longrightarrow> \<forall>e\<in>set ch. \<not> tagged w' e"
  shows "\<forall>e\<in>set tr. \<not> tagged w' e"
  using assms
proof (induction rule: walk_tr.induct)
  case (wt_nested g j ch r acc)
  from wt_nested.hyps wt_nested.prems have "\<forall>e\<in>set ch. \<not> tagged w' e" by blast
  with wt_nested.hyps wt_nested.prems show ?case by (auto simp: transport_untagged)
next
  case (wt_next g j ch acc rest r)
  from wt_next.hyps wt_next.prems have "\<forall>e\<in>set ch. \<not> tagged w' e" by blast
  moreover from wt_next.IH wt_next.prems have "\<forall>e\<in>set rest. \<not> tagged w' e" by blast
  ultimately show ?case using wt_next.hyps wt_next.prems by (auto simp: transport_untagged)
qed (auto simp: transport_untagged)

lemma child_tr_untagged:
  "walk_tr Child d hc pc no_nested acc tr r \<Longrightarrow> \<forall>e\<in>set tr. \<not> tagged Root e"
  by (erule walk_tr_untagged) (simp_all add: no_nested_def)

lemma subs_tr_untagged:
  "subs_tr d hc pc acc tr r \<Longrightarrow> \<forall>e\<in>set tr. \<not> tagged Root e"
  by (induction rule: subs_tr.induct) (auto dest: child_tr_untagged)

lemma sub_nested_untagged:
  "sub_nested d hc pc cs ch fin \<Longrightarrow> \<forall>e\<in>set ch. \<not> tagged Root e"
  by (auto simp: sub_nested_def dest: subs_tr_untagged)

lemma payloads_append [simp]: "payloads w (a @ b) = payloads w a @ payloads w b"
  by (simp add: payloads_def)

lemma payloads_untagged: "\<forall>e\<in>set tr. \<not> tagged w e \<Longrightarrow> payloads w tr = []"
  by (induction tr) (auto simp: payloads_def tagged_def split: event.splits)

lemma payloads_simps [simp]:
  "payloads w [] = []"
  "payloads w (PageE w j # tr) = j # payloads w tr"
  "payloads w (ExtendE w' cs # tr) = payloads w tr"
  "payloads w (SleepE w' d # tr) = payloads w tr"
  "payloads w (CallbackE cs # tr) = payloads w tr"
  by (simp_all add: payloads_def)

lemma walk_tr_result:
  assumes "walk_tr w d hc pc nested acc tr r"
    and "\<And>cs ch fin. nested cs ch fin \<Longrightarrow> \<forall>e\<in>set ch. \<not> tagged w e"
    and "r = Some (Inr x)"
  shows "x = acc @ concat (map pc (payloads w tr))"
  using assms
proof (induction rule: walk_tr.induct)
  case (wt_stop g j acc)
  then show ?case by (simp add: payloads_untagged transport_untagged)
next
  case (wt_next g j ch acc rest r)
  from wt_next.hyps wt_next.prems have "payloads w ch = []" by (blast intro: payloads_untagged)
  moreover have "payloads w g = []"
    using wt_next.hyps by (simp add: payloads_untagged transport_untagged)
  moreover have "x = (acc @ pc j) @ concat (map pc (payloads w rest))"
    using wt_next.IH wt_next.prems by blast
  ultimately show ?case by simp
qed simp_all

lemma phase_step_untagged: "\<not> tagged w e \<Longrightarrow> phase_step w d q e = q"
  by (cases e) (simp_all add: tagged_def)

lemma phase_untagged: "\<forall>e\<in>set tr. \<not> tagged w e \<Longrightarrow> foldl (phase_step w d) q tr = q"
  by (induction tr arbitrary: q) (simp_all add: phase_step_untagged)

lemma phase_broken: "foldl (phase_step w d) Broken tr = Broken"
proof (induction tr)
  case (Cons e tr)
  have "phase_step w d Broken e = Broken" by (cases e) simp_all
  with Cons show ?case by simp
qed simp

lemma walk_tr_phase:
  assumes "walk_tr w d hc pc nested acc tr r"
    and "\<And>cs ch fin. nested cs ch fin \<Longrightarrow> \<forall>e\<in>set ch. \<not> tagged w e"
  shows "phase_after w d tr \<noteq> Broken \<and> ((\<exists>x. r = Some (Inr x)) \<longrightarrow> phase_after w d tr \<noteq> Extended)"
  using assms
proof (induction rule: walk_tr.induct)
  case (wt_nested g j ch r acc)
  from wt_nested.hyps wt_nested.prems have "\<forall>e\<in>set ch. \<not> tagged w e" by blast
  with wt_nested.hyps show ?case
    by (auto simp: phase_after_def phase_untagged transport_untagged)
next
  case (wt_next g j ch acc rest r)
  from wt_next.hyps wt_next.prems have "\<forall>e\<in>set ch. \<not> tagged w e" by blast
  with wt_next.hyps have "phase_after w d (g @ [PageE w j] @ (if hc then [CallbackE (pc j)] else []) @
      [ExtendE w (pc j)] @ ch @ [SleepE w d] @ rest) = phase_after w d rest"
    by (simp add: phase_after_def phase_untagged transport_untagged)
  with wt_next.IH wt_next.prems show ?case by simp
qed (simp_all add: phase_after_def phase_untagged transport_untagged)

lemma phase_at_page:
  assumes "foldl (phase_step w d) q (a @ PageE w j # b) \<noteq> Broken"
  shows "foldl (phase_step w d) q a = Ready \<and> foldl (phase_step w d) Fetched b \<noteq> Broken"
proof -
  let ?q = "foldl (phase_step w d) q a"
  have "?q = Ready"
  proof (rule ccontr)
    assume "?q \<noteq> Ready"
    then have "foldl (phase_step w d) q (a @ PageE w j # b) = Broken" by (simp add: phase_broken)
    with assms show False by simp
  qed
  with assms show ?thesis by simp
qed

lemma phase_at_extend:
  assumes "foldl (phase_step w d) q (a @ ExtendE w cs # b) \<noteq> Broken"
  shows "foldl (phase_step w d) q (a @ ExtendE w cs # b) = foldl (phase_step w d) Extended b"
proof -
  let ?q = "foldl (phase_step w d) q a"
  have "?q = Fetched"
  proof (rule ccontr)
    assume "?q \<noteq> Fetched"
    then have "foldl (phase_step w d) q (a @ ExtendE w cs # b) = Broken" by (simp add: phase_broken)
    with assms show False by simp
  qed
  then show ?thesis by simp
qed

lemma phase_from_extended:
  "foldl (phase_step w d) Extended b \<noteq> Broken \<Longrightarrow>
   foldl (phase_step w d) Extended b = Extended \<or> SleepE w d \<in> set b"
proof (induction b)
  case Nil
  then show ?case by simp
next
  case (Cons e b)
  show ?case
  proof (cases "phase_step w d Extended e = Extended")
    case True
    with Cons show ?thesis by auto
  next
    case False
    have "e = SleepE w d"
    proof (rule ccontr)
      assume "e \<noteq> SleepE w d"
      with False have "phase_step w d Extended e = Broken"
        by (cases e) (auto split: if_splits)
      with Cons.prems show False by (simp add: phase_broken)
    qed
    then show ?thesis by simp
  qed
qed

lemma phase_from_fetched:
  "foldl (phase_step w d) Fetched b \<noteq> Broken \<Longrightarrow>
   (\<forall>e\<in>set b. \<not> tagged w e) \<or>
   (\<exists>b1 cs b2. b = b1 @ ExtendE w cs # b2 \<and> (\<forall>e\<in>set b1. \<not> tagged w e))"
proof (induction b)
  case Nil
  then show ?case by simp
next
  case (Cons e b)
  show ?case
  proof (cases "tagged w e")
    case False
    with Cons.prems have "foldl (phase_step w d) Fetched b \<noteq> Broken"
      by (simp add: phase_step_untagged)
    from Cons.IH[OF this] show ?thesis
    proof
      assume "\<forall>e\<in>set b. \<not> tagged w e"
      with False show ?thesis by simp
    next
      assume "\<exists>b1 cs b2. b = b1 @ ExtendE w cs # b2 \<and> (\<forall>e\<in>set b1. \<not> tagged w e)"
      then obtain b1 cs b2 where "b = b1 @ ExtendE w cs # b2" "\<forall>e\<in>set b1. \<not> tagged w e" by blast
      with False have "e # b = (e # b1) @ ExtendE w cs # b2 \<and> (\<forall>x\<in>set (e # b1). \<not> tagged w x)" by simp
      then show ?thesis by blast
    qed
  next
    case True
    have "\<exists>cs. e = ExtendE w cs"
    proof (rule ccontr)
      assume "\<not> (\<exists>cs. e = ExtendE w cs)"
      with True have "phase_step w d Fetched e = Broken"
        by (cases e) (auto simp: tagged_def)
      with Cons.prems show False by (simp add: phase_broken)
    qed
    then obtain cs where "e = ExtendE w cs" by blast
    then have "e # b = [] @ ExtendE w cs # b \<and> (\<forall>x\<in>set []. \<not> tagged w x)" by simp
    then show ?thesis by blast
  qed
qed

lemma phase_to_ready:
  "foldl (phase_step w d) q m = Ready \<Longrightarrow> q \<noteq> Ready \<Longrightarrow> SleepE w d \<in> set m"
proof (induction m rule: rev_induct)
  case Nil
  then show ?case by simp
next
  case (snoc e m)
  let ?q = "foldl (phase_step w d) q m"
  from snoc.prems have st: "phase_step w d ?q e = Ready" by simp
  show ?case
  proof (cases "?q = Ready")
    case True
    with snoc show ?thesis by simp
  next
    case False
    with st have "e = SleepE w d" by (cases e) (auto split: if_splits)
    then show ?thesis by simp
  qed
qed

text \<open>What a trace that the phases accept says about delays.\<close>

lemma phase_delays:
  assumes "phase_after w d tr \<noteq> Broken"
  shows "(\<forall>a j m j' b. tr = a @ PageE w j # m @ PageE w j' # b \<longrightarrow> SleepE w d \<in> set m) \<and>
         (\<forall>a j b. tr = a @ PageE w j # b \<longrightarrow>
            (\<forall>e\<in>set b. \<not> tagged w e) \<or>
            (\<exists>b1 cs b2. b = b1 @ ExtendE w cs # b2 \<and> (\<forall>e\<in>set b1. \<not> tagged w e))) \<and>
         (phase_after w d tr \<noteq> Extended \<longrightarrow>
            (\<forall>a cs b. tr = a @ ExtendE w cs # b \<longrightarrow> SleepE w d \<in> set b))"
proof (intro conjI allI impI)
  fix a j m j' b
  assume tr: "tr = a @ PageE w j # m @ PageE w j' # b"
  with assms have "foldl (phase_step w d) Ready (a @ PageE w j # (m @ PageE w j' # b)) \<noteq> Broken"
    by (simp add: phase_after_def)
  from phase_at_page[OF this] have "foldl (phase_step w d) Fetched (m @ PageE w j' # b) \<noteq> Broken" by simp
  from phase_at_page[OF this] have "foldl (phase_step w d) Fetched m = Ready" by simp
  from phase_to_ready[OF this] show "SleepE w d \<in> set m" by simp
next
  fix a j b
  assume tr: "tr = a @ PageE w j # b"
  with assms have "foldl (phase_step w d) Ready (a @ PageE w j # b) \<noteq> Broken"
    by (simp add: phase_after_def)
  from phase_at_page[OF this] have "foldl (phase_step w d) Fetched b \<noteq> Broken" by simp
  from phase_from_fetched[OF this]
  show "(\<forall>e\<in>set b. \<not> tagged w e) \<or>
        (\<exists>b1 cs b2. b = b1 @ ExtendE w cs # b2 \<and> (\<forall>e\<in>set b1. \<not> tagged w e))" .
next
  fix a cs b
  assume ne: "phase_after w d tr \<noteq> Extended" and tr: "tr = a @ ExtendE w cs # b"
  from assms tr have nb: "foldl (phase_step w d) Ready (a @ ExtendE w cs # b) \<noteq> Broken"
    by (simp add: phase_after_def)
  from phase_at_extend[OF nb] have eq: "phase_after w d tr = foldl (phase_step w d) Extended b"
    using tr by (simp add: phase_after_def)
  with assms have "foldl (phase_step w d) Extended b \<noteq> Broken" by simp
  from phase_from_extended[OF this] ne eq show "SleepE w d \<in> set b" by simp
qed

lemma cb_wrong: "foldl (cb_step hc) Wrong tr = Wrong"
  by (induction tr) simp_all

lemma cb_step_transport: "is_transport e \<Longrightarrow> cb_step hc Idle e = Idle"
  by (cases e) (simp_all add: is_transport_def)

lemma cb_transport: "\<forall>e\<in>set g. is_transport e \<Longrightarrow> foldl (cb_step hc) Idle g = Idle"
  by (induction g) (simp_all add: cb_step_transport)

lemma walk_tr_cb:
  assumes "walk_tr w d hc pc nested acc tr r"
    and "\<And>cs ch fin. nested cs ch fin \<Longrightarrow>
           cb_after hc ch \<noteq> Wrong \<and> (fin \<longrightarrow> cb_after hc ch = Idle)"
  shows "cb_after hc tr \<noteq> Wrong \<and> ((\<exists>x. r = Some (Inr x)) \<longrightarrow> cb_after hc tr = Idle)"
  using assms
proof (induction rule: walk_tr.induct)
  case (wt_nested g j ch r acc)
  from wt_nested.hyps wt_nested.prems have "cb_after hc ch \<noteq> Wrong" by blast
  with wt_nested.hyps show ?case
    by (cases hc) (simp_all add: cb_after_def cb_transport)
next
  case (wt_next g j ch acc rest r)
  from wt_next.hyps wt_next.prems have "cb_after hc ch = Idle" by blast
  with wt_next.hyps have "cb_after hc (g @ [PageE w j] @ (if hc then [CallbackE (pc j)] else []) @
      [ExtendE w (pc j)] @ ch @ [SleepE w d] @ rest) = cb_after hc rest"
    by (cases hc) (simp_all add: cb_after_def cb_transport)
  with wt_next.IH wt_next.prems show ?case by simp
qed (simp_all add: cb_after_def cb_transport)

lemma child_tr_cb:
  "walk_tr Child d hc pc no_nested acc tr r \<Longrightarrow>
   cb_after hc tr \<noteq> Wrong \<and> ((\<exists>x. r = Some (Inr x)) \<longrightarrow> cb_after hc tr = Idle)"
  by (erule walk_tr_cb) (simp add: no_nested_def cb_after_def)

lemma subs_tr_cb:
  "subs_tr d hc pc acc tr r \<Longrightarrow>
   cb_after hc tr \<noteq> Wrong \<and> ((\<exists>x. r = Some (Inr x)) \<longrightarrow> cb_after hc tr = Idle)"
proof (induction rule: subs_tr.induct)
  case (st_done acc)
  then show ?case by (simp add: cb_after_def)
next
  case (st_abort acc tr r)
  from child_tr_cb[OF st_abort.hyps(1)] st_abort.hyps(2) show ?case by auto
next
  case (st_next acc tr acc' rest r)
  from child_tr_cb[OF st_next.hyps(1)] have "cb_after hc tr = Idle" by simp
  then have "cb_after hc (tr @ rest) = cb_after hc rest" by (simp add: cb_after_def)
  with st_next.IH show ?case by simp
qed

lemma root_tr_cb:
  "walk_tr Root d hc pc (sub_nested d hc pc) acc tr r \<Longrightarrow>
   cb_after hc tr \<noteq> Wrong \<and> ((\<exists>x. r = Some (Inr x)) \<longrightarrow> cb_after hc tr = Idle)"
proof (erule walk_tr_cb)
  fix cs ch fin
  assume "sub_nested d hc pc cs ch fin"
  then obtain q where "subs_tr d hc pc [] ch q" "fin \<longleftrightarrow> (\<exists>a. q = Some (Inr a))"
    by (auto simp: sub_nested_def)
  with subs_tr_cb[of d hc pc "[]" ch q]
  show "cb_after hc ch \<noteq> Wrong \<and> (fin \<longrightarrow> cb_after hc ch = Idle)" by auto
qed

lemma cb_called_last:
  "foldl (cb_step hc) Idle a = Called cs \<Longrightarrow> \<exists>a'. a = a' @ [CallbackE cs]"
proof (induction a rule: rev_induct)
  case Nil
  then show ?case by simp
next
  case (snoc e a)
  let ?q = "foldl (cb_step hc) Idle a"
  from snoc.prems have st: "cb_step hc ?q e = Called cs" by simp
  then have "e = CallbackE cs"
    by (cases "(hc, ?q, e)" rule: cb_step.cases) (auto split: if_splits)
  then show ?case by simp
qed

text \<open>What a trace that the callback phases accept says about the callbacks.\<close>

lemma cb_order:
  assumes "cb_after hc tr \<noteq> Wrong"
  shows "(\<forall>a cs b. tr = a @ CallbackE cs # b \<longrightarrow>
            hc \<and> cs \<noteq> [] \<and> (b = [] \<and> cb_after hc tr \<noteq> Idle \<or> (\<exists>w b'. b = ExtendE w cs # b'))) \<and>
         (hc \<longrightarrow> (\<forall>a w cs b. tr = a @ ExtendE w cs # b \<longrightarrow> (\<exists>a'. a = a' @ [CallbackE cs])))"
proof (rule conjI; intro allI impI)
  fix a cs b
  assume tr: "tr = a @ CallbackE cs # b"
  let ?q = "foldl (cb_step hc) Idle a"
  from assms tr have nw: "foldl (cb_step hc) (cb_step hc ?q (CallbackE cs)) b \<noteq> Wrong"
    by (simp add: cb_after_def)
  have q: "?q = Idle"
  proof (cases ?q)
    case (Called x)
    with nw show ?thesis by (simp add: cb_wrong)
  next
    case Wrong
    with nw show ?thesis by (simp add: cb_wrong)
  qed simp
  have ok: "hc \<and> cs \<noteq> []"
  proof (rule ccontr)
    assume "\<not> (hc \<and> cs \<noteq> [])"
    with q nw show False by (auto simp: cb_wrong)
  qed
  with q nw have nb: "foldl (cb_step hc) (Called cs) b \<noteq> Wrong" by simp
  have "b = [] \<and> cb_after hc tr \<noteq> Idle \<or> (\<exists>w b'. b = ExtendE w cs # b')"
  proof (cases b)
    case Nil
    with tr q ok show ?thesis by (simp add: cb_after_def)
  next
    case (Cons e b')
    have "\<exists>w. e = ExtendE w cs"
    proof (rule ccontr)
      assume "\<not> (\<exists>w. e = ExtendE w cs)"
      then have "cb_step hc (Called cs) e = Wrong" by (cases e) auto
      with nb Cons show False by (simp add: cb_wrong)
    qed
    with Cons show ?thesis by auto
  qed
  with ok show "hc \<and> cs \<noteq> [] \<and> (b = [] \<and> cb_after hc tr \<noteq> Idle \<or> (\<exists>w b'. b = ExtendE w cs # b'))"
    by simp
next
  fix a w cs b
  assume hc: hc and tr: "tr = a @ ExtendE w cs # b"
  let ?q = "foldl (cb_step hc) Idle a"
  from assms tr have nw: "foldl (cb_step hc) (cb_step hc ?q (ExtendE w cs)) b \<noteq> Wrong"
    by (simp add: cb_after_def)
  have "?q = Called cs"
  proof (cases ?q)
    case Idle
    with nw hc show ?thesis by (simp add: cb_wrong)
  next
    case (Called x)
    with nw show ?thesis by (cases "x = cs") (simp_all add: cb_wrong)
  next
    case Wrong
    with nw show ?thesis by (simp add: cb_wrong)
  qed
  from cb_called_last[OF this] show "\<exists>a'. a = a' @ [CallbackE cs]" .
qed

subsection \<open>The claims about traces\<close>

lemmas run_defs = get_note_all_comments_def get_comments_all_sub_comments_def get_root_comments_def
  get_child_comments_def get_def pre_headers_def request_def request_attempt_def interpret_response_def
  read_page_def run_callback_def emit_def copy_dict_def set_item_def subscript_def final_uri_def
  root_uri_def child_uri_def comment_params_def Let_def numeral_2_eq_2
  demo_env_def demo_sign_def demo_extract_offset_def demo_extract_comments_def demo_comment_def
  script_def demo_client_def demo_world_def ok_def status_def answer42_def counted_page_def raw_page_def

lemma returned_iff: "returned (r, s) \<longleftrightarrow> (\<exists>x. r = Some (Inr x))"
  by (auto simp: returned_def split: option.splits sum.splits)

lemma phase_delays_ok:
  assumes "phase_after w d tr \<noteq> Broken" and "fin \<longrightarrow> phase_after w d tr \<noteq> Extended"
  shows "delays_ok w d fin tr"
  unfolding delays_ok_def using phase_delays[OF assms(1)] assms(2) by blast

lemma cb_callbacks_ok:
  assumes "cb_after hc tr \<noteq> Wrong" and "fin \<longrightarrow> cb_after hc tr = Idle"
  shows "callbacks_ok hc fin tr"
  unfolding callbacks_ok_def using cb_order[OF assms(1)] assms(2) by blast

text \<open>
  C9.  When \<open>get_note_all_comments\<close> returns, the list it returns is the concatenation,
  in order, of the comments of the payloads fetched from the root-comment endpoint in
  that run; what the child walk fetches and returns is not part of it.
\<close>

theorem root_walk_returns_root_pages:
  assumes "get_note_all_comments fuel E cl c d cb s = (Some (Inr result), s')"
  shows "\<exists>tr. log s' = log s @ tr \<and> result = concat (map (page_comments E c) (payloads Root tr))"
proof -
  from assms have "root_pages fuel E cl c d cb (JBool False) [] [] s = (Some (Inr result), s')"
    by (simp add: get_note_all_comments_def)
  from root_pages_walk_tr[OF this] obtain tr where
    tr: "log s' = log s @ tr"
      "walk_tr Root d (cb \<noteq> None) (page_comments E c) (sub_nested d (cb \<noteq> None) (page_comments E c)) []
         tr (Some (Inr result))"
    by blast
  from walk_tr_result[OF tr(2) sub_nested_untagged refl]
  have "result = concat (map (page_comments E c) (payloads Root tr))" by simp
  with tr(1) show ?thesis by blast
qed

theorem root_walk_returns_root_pages_witness:
  "concat (map (page_comments (demo_env demo_sign True reply_script) answer42)
     (payloads Root (log (snd (get_note_all_comments 1 (demo_env demo_sign True reply_script)
        demo_client answer42 1 (Some (\<lambda>cs. None)) demo_world))))) =
   [\<lparr>comment_id = ''c1'', sub_comment_count = 1\<rparr>] \<and>
   payloads Child (log (snd (get_note_all_comments 1 (demo_env demo_sign True reply_script)
        demo_client answer42 1 (Some (\<lambda>cs. None)) demo_world))) =
   [counted_page [(''s1'', 0)] ''p1'' True]"
proof -
  let ?R = "get_note_all_comments 1 (demo_env demo_sign True reply_script)
        demo_client answer42 1 (Some (\<lambda>cs. None)) demo_world"
  have "fst ?R = Some (Inr [\<lparr>comment_id = ''c1'', sub_comment_count = 1\<rparr>])"
    by (simp add: run_defs reply_script_def)
  then have "?R = (Some (Inr [\<lparr>comment_id = ''c1'', sub_comment_count = 1\<rparr>]), snd ?R)"
    by (simp add: prod_eq_iff)
  from root_walk_returns_root_pages[OF this] obtain tr where
    "log (snd ?R) = log demo_world @ tr"
    "[\<lparr>comment_id = ''c1'', sub_comment_count = 1\<rparr>] =
       concat (map (page_comments (demo_env demo_sign True reply_script) answer42) (payloads Root tr))"
    by blast
  then have "concat (map (page_comments (demo_env demo_sign True reply_script) answer42)
      (payloads Root (log (snd ?R)))) = [\<lparr>comment_id = ''c1'', sub_comment_count = 1\<rparr>]"
    by (simp add: demo_world_def)
  moreover have "payloads Child (log (snd ?R)) = [counted_page [(''s1'', 0)] ''p1'' True]"
    by (simp add: run_defs reply_script_def payloads_def)
  ultimately show ?thesis by simp
qed

text \<open>
  C4, as the code has it.  In the root walk and in the walk of a parent's replies the
  delay is awaited at the end of every iteration that appended a page: so between any two
  page fetches of the walk, and also after the last page of a walk that returned with
  that page appended, as the page marked \<open>is_end\<close> is.  A page that ends the walk because
  the payload or the extracted list is empty is followed by no delay.
\<close>

theorem delay_follows_every_appended_page:
  "(\<exists>tr. log (snd (get_note_all_comments fuel E cl c d cb s)) = log s @ tr \<and>
      delays_ok Root d (returned (get_note_all_comments fuel E cl c d cb s)) tr) \<and>
   (\<exists>tr. log (snd (child_pages fuel E cl c parent d cb is_end offset acc s)) = log s @ tr \<and>
      delays_ok Child d (returned (child_pages fuel E cl c parent d cb is_end offset acc s)) tr)"
proof
  obtain r s' where run: "root_pages fuel E cl c d cb (JBool False) [] [] s = (r, s')"
    by (cases "root_pages fuel E cl c d cb (JBool False) [] [] s")
  from root_pages_walk_tr[OF run] obtain tr where
    tr: "log s' = log s @ tr"
      "walk_tr Root d (cb \<noteq> None) (page_comments E c) (sub_nested d (cb \<noteq> None) (page_comments E c)) [] tr r"
    by blast
  from walk_tr_phase[OF tr(2) sub_nested_untagged]
  have "delays_ok Root d (\<exists>x. r = Some (Inr x)) tr" by (intro phase_delays_ok) simp_all
  with tr(1) run show "\<exists>tr. log (snd (get_note_all_comments fuel E cl c d cb s)) = log s @ tr \<and>
      delays_ok Root d (returned (get_note_all_comments fuel E cl c d cb s)) tr"
    by (auto simp: get_note_all_comments_def returned_iff)
next
  obtain r s' where run: "child_pages fuel E cl c parent d cb is_end offset acc s = (r, s')"
    by (cases "child_pages fuel E cl c parent d cb is_end offset acc s")
  from child_pages_walk_tr[OF run] obtain tr where
    tr: "log s' = log s @ tr" "walk_tr Child d (cb \<noteq> None) (page_comments E c) no_nested acc tr r"
    by blast
  have "\<forall>e\<in>set ch. \<not> tagged Child e" if "no_nested cs ch fin" for cs ch fin
    using that by (simp add: no_nested_def)
  from walk_tr_phase[OF tr(2) this]
  have "delays_ok Child d (\<exists>x. r = Some (Inr x)) tr" by (intro phase_delays_ok) simp_all
  with tr(1) run show "\<exists>tr. log (snd (child_pages fuel E cl c parent d cb is_end offset acc s)) = log s @ tr \<and>
      delays_ok Child d (returned (child_pages fuel E cl c parent d cb is_end offset acc s)) tr"
    by (auto simp: returned_iff)
qed

theorem delay_follows_every_appended_page_witness:
  "returned (get_note_all_comments 2 (demo_env demo_sign True two_pages) demo_client answer42 1 None demo_world) \<and>
   delays_ok Root 1 True
     (log (snd (get_note_all_comments 2 (demo_env demo_sign True two_pages) demo_client answer42 1 None demo_world))) \<and>
   length (payloads Root
     (log (snd (get_note_all_comments 2 (demo_env demo_sign True two_pages) demo_client answer42 1 None demo_world)))) = 2"
proof -
  let ?R = "get_note_all_comments 2 (demo_env demo_sign True two_pages) demo_client answer42 1 None demo_world"
  have r: "returned ?R"
    by (simp add: run_defs two_pages_def returned_def)
  from delay_follows_every_appended_page[of 2 "demo_env demo_sign True two_pages" demo_client answer42 1 None demo_world]
  obtain tr where "log (snd ?R) = log demo_world @ tr" "delays_ok Root 1 (returned ?R) tr"
    by blast
  with r have "delays_ok Root 1 True (log (snd ?R))" by (simp add: demo_world_def)
  moreover have "length (payloads Root (log (snd ?R))) = 2"
    by (simp add: run_defs two_pages_def payloads_def)
  ultimately show ?thesis using r by simp
qed

text \<open>
  The claim's "no delay after the final page" fails: a walk whose only page is marked
  \<open>is_end\<close> makes its one request, returns that page's comment, and the last thing it
  has done is the delay.
\<close>

theorem delay_after_final_page_counterexample:
  "fst (get_note_all_comments 1 (demo_env demo_sign True [ok (raw_page [''c1''] ''o1'' True)])
          demo_client answer42 1 None demo_world) = Some (Inr [cmt ''c1'']) \<and>
   log (snd (get_note_all_comments 1 (demo_env demo_sign True [ok (raw_page [''c1''] ''o1'' True)])
          demo_client answer42 1 None demo_world)) =
     [SignE ''/api/v4/answers/42/root_comments?order=sort&offset=&limit=10'' ''d_c0=AAAA'',
      HttpE ''GET'' ''https://www.zhihu.com/api/v4/answers/42/root_comments?order=sort&offset=&limit=10''
        [(''cookie'', ''d_c0=AAAA''), (''x-zst-81'', ''3_2.0''), (''x-zse-96'', ''2.0_sig'')],
      PageE Root (raw_page [''c1''] ''o1'' True),
      ExtendE Root [cmt ''c1''],
      SleepE Root 1]"
  by (simp add: run_defs cmt_def)

text \<open>
  C10.  In the root walk (the child walks it runs included) and in the child walk on its
  own, a callback is invoked only with a non-empty list, and the next event after it is
  the extend of the accumulator with that list; the one exception is a callback that
  raises, which ends the run.  With a callback supplied nothing is appended that has not
  just been passed to it.
\<close>

theorem callback_nonempty_before_extend:
  "(\<exists>tr. log (snd (get_note_all_comments fuel E cl c d cb s)) = log s @ tr \<and>
      callbacks_ok (cb \<noteq> None) (returned (get_note_all_comments fuel E cl c d cb s)) tr) \<and>
   (\<exists>tr. log (snd (get_comments_all_sub_comments fuel E cl c comments d cb s)) = log s @ tr \<and>
      callbacks_ok (cb \<noteq> None) (returned (get_comments_all_sub_comments fuel E cl c comments d cb s)) tr)"
proof
  obtain r s' where run: "root_pages fuel E cl c d cb (JBool False) [] [] s = (r, s')"
    by (cases "root_pages fuel E cl c d cb (JBool False) [] [] s")
  from root_pages_walk_tr[OF run] obtain tr where
    tr: "log s' = log s @ tr"
      "walk_tr Root d (cb \<noteq> None) (page_comments E c) (sub_nested d (cb \<noteq> None) (page_comments E c)) [] tr r"
    by blast
  from root_tr_cb[OF tr(2)]
  have "callbacks_ok (cb \<noteq> None) (\<exists>x. r = Some (Inr x)) tr" by (intro cb_callbacks_ok) simp_all
  with tr(1) run show "\<exists>tr. log (snd (get_note_all_comments fuel E cl c d cb s)) = log s @ tr \<and>
      callbacks_ok (cb \<noteq> None) (returned (get_note_all_comments fuel E cl c d cb s)) tr"
    by (auto simp: get_note_all_comments_def returned_iff)
next
  obtain r s' where run: "get_comments_all_sub_comments fuel E cl c comments d cb s = (r, s')"
    by (cases "get_comments_all_sub_comments fuel E cl c comments d cb s")
  from sub_comments_subs_tr[OF run] obtain tr where
    tr: "log s' = log s @ tr" "subs_tr d (cb \<noteq> None) (page_comments E c) [] tr r"
    by blast
  from subs_tr_cb[OF tr(2)]
  have "callbacks_ok (cb \<noteq> None) (\<exists>x. r = Some (Inr x)) tr" by (intro cb_callbacks_ok) simp_all
  with tr(1) run show "\<exists>tr. log (snd (get_comments_all_sub_comments fuel E cl c comments d cb s)) = log s @ tr \<and>
      callbacks_ok (cb \<noteq> None) (returned (get_comments_all_sub_comments fuel E cl c comments d cb s)) tr"
    by (auto simp: returned_iff)
qed

theorem callback_nonempty_before_extend_witness:
  "callbacks_ok True True
     (log (snd (get_note_all_comments 1 (demo_env demo_sign True reply_script)
        demo_client answer42 1 (Some (\<lambda>cs. None)) demo_world))) \<and>
   filter (\<lambda>e. case e of CallbackE cs \<Rightarrow> True | _ \<Rightarrow> False)
     (log (snd (get_note_all_comments 1 (demo_env demo_sign True reply_script)
        demo_client answer42 1 (Some (\<lambda>cs. None)) demo_world))) =
   [CallbackE [\<lparr>comment_id = ''c1'', sub_comment_count = 1\<rparr>],
    CallbackE [\<lparr>comment_id = ''s1'', sub_comment_count = 0\<rparr>]]"
proof -
  let ?R = "get_note_all_comments 1 (demo_env demo_sign True reply_script)
        demo_client answer42 1 (Some (\<lambda>cs. None)) demo_world"
  have r: "returned ?R"
    by (simp add: run_defs reply_script_def returned_def)
  from callback_nonempty_before_extend[of 1 "demo_env demo_sign True reply_script" demo_client answer42 1
      "Some (\<lambda>cs. None)" demo_world]
  obtain tr where "log (snd ?R) = log demo_world @ tr"
    "callbacks_ok (Some (\<lambda>cs. None) \<noteq> (None :: callback)) (returned ?R) tr"
    by blast
  with r have "callbacks_ok True True (log (snd ?R))" by (simp add: demo_world_def)
  moreover have "filter (\<lambda>e. case e of CallbackE cs \<Rightarrow> True | _ \<Rightarrow> False) (log (snd ?R)) =
     [CallbackE [\<lparr>comment_id = ''c1'', sub_comment_count = 1\<rparr>],
      CallbackE [\<lparr>comment_id = ''s1'', sub_comment_count = 0\<rparr>]]"
    by (simp add: run_defs reply_script_def)
  ultimately show ?thesis by simp
qed

section \<open>The root walk over the pages it is served\<close>

lemma session_ok_frame:
  "session_ok E cl s \<Longrightarrow> heap s' (default_headers cl) = heap s (default_headers cl) \<Longrightarrow>
   next_addr s \<le> next_addr s' \<Longrightarrow> session_ok E cl s'"
  by (auto simp: session_ok_def)

lemma run_callback_frame:
  "run_callback cb cs s = (a, s') \<Longrightarrow> heap s' = heap s \<and> next_addr s' = next_addr s \<and> calls s' = calls s"
  by (auto simp: run_callback_def emit_def split: option.splits)

lemma heap_emit [simp]: "heap (emit e s) = heap s"
  by (simp add: emit_def)

lemma next_addr_emit [simp]: "next_addr (emit e s) = next_addr s"
  by (simp add: emit_def)

lemma child_pages_frame:
  "default_headers cl < next_addr s \<Longrightarrow>
   child_pages fuel E cl c parent d cb is_end offset acc s = (r, s') \<Longrightarrow>
   heap s' (default_headers cl) = heap s (default_headers cl) \<and> next_addr s \<le> next_addr s'"
proof (induction fuel arbitrary: is_end offset acc s)
  case 0
  then show ?case by (auto split: if_splits)
next
  case (Suc n)
  show ?case
  proof (cases "truthy is_end")
    case True
    with Suc.prems show ?thesis by simp
  next
    case False
    obtain a s1 where g: "get_child_comments E cl (comment_id parent) offset s = (a, s1)"
      by (cases "get_child_comments E cl (comment_id parent) offset s")
    from get_heap[OF Suc.prems(1) g[unfolded get_child_comments_def]]
    have f1: "heap s1 (default_headers cl) = heap s (default_headers cl)" "next_addr s \<le> next_addr s1"
      by simp_all
    show ?thesis
    proof (cases a)
      case (Inl e)
      with Suc.prems False g f1 show ?thesis by auto
    next
      case (Inr res)
      let ?s2 = "emit (PageE Child (payload_json res)) s1"
      show ?thesis
      proof (cases "\<exists>ie off cs. truthy (payload_json res) \<and>
            read_page E c (payload_json res) = Inr (ie, off, cs) \<and> cs \<noteq> [] \<and>
            (\<exists>s3. run_callback cb cs ?s2 = (Inr (), s3))")
        case True
        then obtain ie off cs s3 where t: "truthy (payload_json res)"
          "read_page E c (payload_json res) = Inr (ie, off, cs)" "cs \<noteq> []"
          "run_callback cb cs ?s2 = (Inr (), s3)" by blast
        let ?s4 = "emit (SleepE Child d) (emit (ExtendE Child cs) s3)"
        from run_callback_frame[OF t(4)] f1 Suc.prems(1)
        have f4: "heap ?s4 (default_headers cl) = heap s (default_headers cl)" "next_addr s \<le> next_addr ?s4"
          "default_headers cl < next_addr ?s4" by simp_all
        from Suc.prems(2) False g Inr t
        have "child_pages n E cl c parent d cb ie off (acc @ cs) ?s4 = (r, s')" by (simp add: Let_def)
        from Suc.IH[OF f4(3) this] f4 show ?thesis by simp
      next
        case False
        obtain b s3 where rc: "run_callback cb (snd (snd (projr (read_page E c (payload_json res))))) ?s2 = (b, s3)"
          by (cases "run_callback cb (snd (snd (projr (read_page E c (payload_json res))))) ?s2")
        from run_callback_frame[OF rc] have f3: "heap s3 = heap s1" "next_addr s3 = next_addr s1" by simp_all
        from Suc.prems(2) \<open>\<not> truthy is_end\<close> g Inr False rc have "s' = ?s2 \<or> s' = s3"
          by (auto simp: Let_def split: sum.splits prod.splits if_splits)
        with f1 f3 show ?thesis by auto
      qed
    qed
  qed
qed

lemma sub_comments_loop_frame:
  "default_headers cl < next_addr s \<Longrightarrow>
   sub_comments_loop fuel E cl c d cb ps acc s = (r, s') \<Longrightarrow>
   heap s' (default_headers cl) = heap s (default_headers cl) \<and> next_addr s \<le> next_addr s'"
proof (induction ps arbitrary: acc s)
  case Nil
  then show ?case by simp
next
  case (Cons p ps)
  show ?case
  proof (cases "sub_comment_count p = 0")
    case True
    with Cons.prems have "sub_comments_loop fuel E cl c d cb ps acc s = (r, s')" by simp
    from Cons.IH[OF Cons.prems(1) this] show ?thesis .
  next
    case False
    obtain a s1 where cp: "child_pages fuel E cl c p d cb (JBool False) [] acc s = (a, s1)"
      by (cases "child_pages fuel E cl c p d cb (JBool False) [] acc s")
    from child_pages_frame[OF Cons.prems(1) cp]
    have f1: "heap s1 (default_headers cl) = heap s (default_headers cl)" "next_addr s \<le> next_addr s1"
      by simp_all
    show ?thesis
    proof (cases "\<exists>acc'. a = Some (Inr acc')")
      case True
      then obtain acc' where a: "a = Some (Inr acc')" by blast
      with Cons.prems False cp have "sub_comments_loop fuel E cl c d cb ps acc' s1 = (r, s')" by simp
      moreover have "default_headers cl < next_addr s1" using f1 Cons.prems(1) by simp
      ultimately have "heap s' (default_headers cl) = heap s1 (default_headers cl) \<and> next_addr s1 \<le> next_addr s'"
        by (rule Cons.IH[rotated])
      with f1 show ?thesis by simp
    next
      case nr: False
      with Cons.prems False cp have "s' = s1" by (auto split: option.splits sum.splits)
      with f1 show ?thesis by simp
    qed
  qed
qed

lemma sub_comments_frame:
  assumes "default_headers cl < next_addr s"
    and "get_comments_all_sub_comments fuel E cl c comments d cb s = (r, s')"
  shows "heap s' (default_headers cl) = heap s (default_headers cl) \<and> next_addr s \<le> next_addr s'"
proof (cases "ENABLE_GET_SUB_COMMENTS E")
  case True
  with assms(2) have "sub_comments_loop fuel E cl c d cb comments [] s = (r, s')"
    by (simp add: get_comments_all_sub_comments_def)
  from sub_comments_loop_frame[OF assms(1) this] show ?thesis .
next
  case False
  with assms(2) have "s' = s" by (simp add: get_comments_all_sub_comments_def)
  then show ?thesis by simp
qed

lemma run_callback_accepted:
  "accepts cb cs \<Longrightarrow>
   run_callback cb cs s = (Inr (), s\<lparr>log := log s @ (if cb \<noteq> None then [CallbackE cs] else [])\<rparr>)"
  by (auto simp: accepts_def run_callback_def emit_def split: option.splits)

lemma root_pages_served:
  assumes "session_ok E cl s" "page_run fuel E cl c d cb s pgs" "pgs \<noteq> []" "\<not> truthy is_end"
    "length pgs \<le> fuel"
  shows "\<exists>s' tr. root_pages fuel E cl c d cb is_end offset result s =
            (Some (Inr (result @ concat (map p_comments pgs))), s') \<and>
          log s' = log s @ tr \<and> root_trace E c d (cb \<noteq> None) offset pgs tr"
  using assms
proof (induction pgs arbitrary: fuel is_end offset result s)
  case Nil
  then show ?case by simp
next
  case (Cons pg rest)
  from Cons.prems(5) obtain n where fuel: "fuel = Suc n" "length rest \<le> n" by (cases fuel) auto
  from Cons.prems(2) have sv: "serves E c (calls s) pg" and last: "truthy (p_is_end pg) \<longleftrightarrow> rest = []"
    and ac: "accepts cb (p_comments pg)"
    and ch: "\<And>s3. calls s3 = Suc (calls s) \<Longrightarrow>
            heap s3 (default_headers cl) = heap s (default_headers cl) \<Longrightarrow>
            default_headers cl < next_addr s3 \<Longrightarrow>
            \<exists>x s4. get_comments_all_sub_comments fuel E cl c (p_comments pg) d cb s3 = (Some (Inr x), s4) \<and>
                    page_run (fuel - 1) E cl c d cb (emit (SleepE Root d) s4) rest"
    by simp_all
  from Cons.prems(1) have al: "default_headers cl < next_addr s" by (simp add: session_ok_def)
  from sv have "\<forall>h. \<exists>r. net E (calls s) ''GET'' (ZHIHU_URL E @ final_uri E (root_uri c) (Some (comment_params ''sort'' offset ''10''))) h = Response r \<and>
      interpret_response False r = Inr (Json (p_json pg))"
    by (simp add: serves_def)
  from get_ok[OF Cons.prems(1) this] obtain s1 ck h where
    g: "get_root_comments E cl c offset s = (Inr (Json (p_json pg)), s1)"
    and c1: "calls s1 = Suc (calls s)"
    and l1: "log s1 = log s @ [SignE (root_route E c offset) ck, HttpE ''GET'' (ZHIHU_URL E @ root_route E c offset) h]"
    by (auto simp: get_root_comments_def root_route_def)
  from get_heap[OF al g[unfolded get_root_comments_def]]
  have h1: "heap s1 (default_headers cl) = heap s (default_headers cl)" "next_addr s \<le> next_addr s1"
    by simp_all
  let ?cbs = "if cb \<noteq> None then [CallbackE (p_comments pg)] else []"
  let ?s2 = "emit (PageE Root (p_json pg)) s1"
  let ?s3 = "?s2\<lparr>log := log ?s2 @ ?cbs\<rparr>"
  let ?s3' = "emit (ExtendE Root (p_comments pg)) ?s3"
  have rc: "run_callback cb (p_comments pg) ?s2 = (Inr (), ?s3)"
    by (rule run_callback_accepted[OF ac])
  have "calls ?s3' = Suc (calls s)" "heap ?s3' (default_headers cl) = heap s (default_headers cl)"
    "default_headers cl < next_addr ?s3'"
    using c1 h1 al by (simp_all add: emit_def)
  from ch[OF this] obtain x s4 where
    sub: "get_comments_all_sub_comments fuel E cl c (p_comments pg) d cb ?s3' = (Some (Inr x), s4)"
    and run: "page_run n E cl c d cb (emit (SleepE Root d) s4) rest"
    using fuel by auto
  from sub_comments_events[OF sub] obtain tch where
    tch: "log s4 = log ?s3' @ tch" "\<forall>e\<in>set tch. sub_event E d (p_comments pg) e" by blast
  have "default_headers cl < next_addr ?s3'" using h1 al by (simp add: emit_def)
  from sub_comments_frame[OF this sub]
  have h4: "heap s4 (default_headers cl) = heap s (default_headers cl)" "next_addr s \<le> next_addr s4"
    using h1 by (simp_all add: emit_def)
  let ?s5 = "emit (SleepE Root d) s4"
  have ok5: "session_ok E cl ?s5"
    using session_ok_frame[OF Cons.prems(1), of ?s5] h4 by simp
  define pre where "pre = [SignE (root_route E c offset) ck, HttpE ''GET'' (ZHIHU_URL E @ root_route E c offset) h,
        PageE Root (p_json pg)] @ ?cbs @ [ExtendE Root (p_comments pg)] @ tch @ [SleepE Root d]"
  have l5: "log ?s5 = log s @ pre"
    using l1 tch(1) by (simp add: pre_def emit_def)
  have step: "root_pages fuel E cl c d cb is_end offset result s =
      root_pages n E cl c d cb (p_is_end pg) (p_offset pg) (result @ p_comments pg) ?s5"
    using Cons.prems(4) fuel g sv rc sub by (simp add: serves_def Let_def)
  show ?case
  proof (cases "rest = []")
    case True
    with last have "truthy (p_is_end pg)" by simp
    from root_pages_end[OF this] step True
    have "root_pages fuel E cl c d cb is_end offset result s =
        (Some (Inr (result @ concat (map p_comments (pg # rest)))), ?s5)" by simp
    moreover have "root_trace E c d (cb \<noteq> None) offset (pg # rest) pre"
      using True tch(2) by (simp add: pre_def)
    ultimately show ?thesis using l5 by blast
  next
    case False
    with last have ne: "\<not> truthy (p_is_end pg)" by simp
    from Cons.IH[OF ok5 run False ne fuel(2)] obtain s' tr where
      r: "root_pages n E cl c d cb (p_is_end pg) (p_offset pg) (result @ p_comments pg) ?s5 =
            (Some (Inr ((result @ p_comments pg) @ concat (map p_comments rest))), s')"
      and l: "log s' = log ?s5 @ tr"
      and u: "root_trace E c d (cb \<noteq> None) (p_offset pg) rest tr"
      by blast
    have "log s' = log s @ (pre @ tr)" using l l5 by simp
    moreover have "root_trace E c d (cb \<noteq> None) offset (pg # rest) (pre @ tr)"
      using u tch(2) by (auto simp: pre_def)
    moreover have "root_pages fuel E cl c d cb is_end offset result s =
        (Some (Inr (result @ concat (map p_comments (pg # rest)))), s')"
      using step r by simp
    ultimately show ?thesis by blast
  qed
qed

lemma root_trace_urls:
  "root_trace E c d hc offset pgs tr \<Longrightarrow>
   \<forall>pg\<in>set pgs. \<not> ENABLE_GET_SUB_COMMENTS E \<or> (\<forall>x\<in>set (p_comments pg). sub_comment_count x = 0) \<Longrightarrow>
   http_urls tr = map (\<lambda>off. ZHIHU_URL E @ root_route E c off) (offsets_asked offset pgs)"
proof (induction pgs arbitrary: offset tr)
  case Nil
  then show ?case by (simp add: http_urls_def)
next
  case (Cons pg rest)
  from Cons.prems(1) obtain ck h ch tl where
    tr: "tr = [SignE (root_route E c offset) ck, HttpE ''GET'' (ZHIHU_URL E @ root_route E c offset) h,
              PageE Root (p_json pg)] @ (if hc then [CallbackE (p_comments pg)] else []) @
             [ExtendE Root (p_comments pg)] @ ch @ [SleepE Root d] @ tl"
    and ch: "\<forall>e\<in>set ch. sub_event E d (p_comments pg) e"
    and tl: "root_trace E c d hc (p_offset pg) rest tl"
    by auto
  from Cons.prems(2) have "\<not> sub_event E d (p_comments pg) e" for e
    by (auto simp: sub_event_def)
  with ch have "ch = []" by (cases ch) auto
  moreover from Cons.IH[OF tl] Cons.prems(2)
  have "http_urls tl = map (\<lambda>off. ZHIHU_URL E @ root_route E c off) (offsets_asked (p_offset pg) rest)"
    by simp
  ultimately show ?case using tr by (simp add: http_urls_def)
qed

lemma child_pages_served:
  assumes "session_ok E cl s" "served_in_a_row E c (calls s) pgs" "pgs \<noteq> []" "\<not> truthy is_end"
    "length pgs \<le> fuel" "\<forall>pg\<in>set pgs. accepts cb (p_comments pg)"
  shows "\<exists>s'. child_pages fuel E cl c parent d cb is_end offset acc s =
            (Some (Inr (acc @ concat (map p_comments pgs))), s') \<and>
          calls s' = calls s + length pgs"
  using assms
proof (induction pgs arbitrary: fuel is_end offset acc s)
  case Nil
  then show ?case by simp
next
  case (Cons pg rest)
  from Cons.prems(5) obtain n where fuel: "fuel = Suc n" "length rest \<le> n" by (cases fuel) auto
  from Cons.prems(2) have sv: "serves E c (calls s) pg" and last: "truthy (p_is_end pg) \<longleftrightarrow> rest = []"
    and run: "served_in_a_row E c (Suc (calls s)) rest" by simp_all
  from Cons.prems(6) have ac: "accepts cb (p_comments pg)" by simp
  from Cons.prems(1) have al: "default_headers cl < next_addr s" by (simp add: session_ok_def)
  from sv have "\<forall>h. \<exists>r. net E (calls s) ''GET'' (ZHIHU_URL E @ final_uri E (child_uri (comment_id parent)) (Some (comment_params ''sort'' offset ''10''))) h = Response r \<and>
      interpret_response False r = Inr (Json (p_json pg))"
    by (simp add: serves_def)
  from get_ok[OF Cons.prems(1) this] obtain s1 where
    g: "get_child_comments E cl (comment_id parent) offset s = (Inr (Json (p_json pg)), s1)"
    and ok1: "session_ok E cl s1" and c1: "calls s1 = Suc (calls s)"
    by (auto simp: get_child_comments_def)
  let ?cbs = "if cb \<noteq> None then [CallbackE (p_comments pg)] else []"
  let ?s2 = "emit (PageE Child (p_json pg)) s1"
  let ?s3 = "?s2\<lparr>log := log ?s2 @ ?cbs\<rparr>"
  let ?s5 = "emit (SleepE Child d) (emit (ExtendE Child (p_comments pg)) ?s3)"
  have rc: "run_callback cb (p_comments pg) ?s2 = (Inr (), ?s3)"
    by (rule run_callback_accepted[OF ac])
  have ok5: "session_ok E cl ?s5" using ok1 by (simp add: session_ok_def emit_def)
  have c5: "calls ?s5 = Suc (calls s)" using c1 by (simp add: emit_def)
  have step: "child_pages fuel E cl c parent d cb is_end offset acc s =
      child_pages n E cl c parent d cb (p_is_end pg) (p_offset pg) (acc @ p_comments pg) ?s5"
    using Cons.prems(4) fuel g sv rc by (simp add: serves_def Let_def)
  show ?case
  proof (cases "rest = []")
    case True
    with last have "truthy (p_is_end pg)" by simp
    then have "child_pages n E cl c parent d cb (p_is_end pg) (p_offset pg) (acc @ p_comments pg) ?s5 =
        (Some (Inr (acc @ p_comments pg)), ?s5)" by (cases n) simp_all
    with step True c5 show ?thesis by simp
  next
    case False
    with last have ne: "\<not> truthy (p_is_end pg)" by simp
    have "served_in_a_row E c (calls ?s5) rest" using run c5 by simp
    moreover have "\<forall>pg\<in>set rest. accepts cb (p_comments pg)" using Cons.prems(6) by simp
    ultimately obtain s' where
      "child_pages n E cl c parent d cb (p_is_end pg) (p_offset pg) (acc @ p_comments pg) ?s5 =
         (Some (Inr ((acc @ p_comments pg) @ concat (map p_comments rest))), s')"
      "calls s' = calls ?s5 + length rest"
      using Cons.IH[OF ok5 _ False ne fuel(2)] by blast
    with step c5 show ?thesis by simp
  qed
qed

lemma page_run_no_child:
  "served_in_a_row E c (calls s) pgs \<Longrightarrow>
   \<forall>pg\<in>set pgs. accepts cb (p_comments pg) \<and>
      (\<not> ENABLE_GET_SUB_COMMENTS E \<or> (\<forall>x\<in>set (p_comments pg). sub_comment_count x = 0)) \<Longrightarrow>
   page_run fuel E cl c d cb s pgs"
proof (induction pgs arbitrary: fuel s)
  case Nil
  then show ?case by simp
next
  case (Cons pg rest)
  have "\<exists>x s4. get_comments_all_sub_comments fuel E cl c (p_comments pg) d cb s3 = (Some (Inr x), s4) \<and>
          page_run (fuel - 1) E cl c d cb (emit (SleepE Root d) s4) rest"
    if "calls s3 = Suc (calls s)" for s3
  proof -
    from Cons.prems(2)
    have "get_comments_all_sub_comments fuel E cl c (p_comments pg) d cb s3 = (Some (Inr []), s3)"
      by (intro no_child_walk) simp
    moreover have "page_run (fuel - 1) E cl c d cb (emit (SleepE Root d) s3) rest"
      using Cons.prems that by (intro Cons.IH) simp_all
    ultimately show ?thesis by blast
  qed
  with Cons.prems show ?case by simp
qed

text \<open>
  C1.  Let the network serve a non-empty sequence of valid root-comment pages to the walk,
  the last one alone marked \<open>is_end\<close>: the exchange at which the walk asks for a page
  answers with a response that \<open>request\<close> turns into a non-empty payload with comments to
  extract, the callback takes them, and the child walk for them returns; the session can
  sign.  Then, given fuel for that many iterations, \<open>get_note_all_comments\<close> returns the
  concatenation of the pages' comments in order, and its trace is, page after page, one
  signed request of the root route (the first with offset \<open>""\<close>, each later one with the
  offset extracted from the page before), the page, the callback, the extend, the events
  of the child walk, and the delay.  Where no comment has replies to fetch, the HTTP
  requests of the run are exactly these, one per page.
\<close>

theorem root_walk_follows_offsets:
  assumes "session_ok E cl s" and "page_run fuel E cl c d cb s pgs" and "pgs \<noteq> []"
    and "length pgs \<le> fuel"
  shows "\<exists>s' tr. get_note_all_comments fuel E cl c d cb s =
            (Some (Inr (concat (map p_comments pgs))), s') \<and>
          log s' = log s @ tr \<and>
          root_trace E c d (cb \<noteq> None) [] pgs tr \<and>
          ((\<forall>pg\<in>set pgs. \<not> ENABLE_GET_SUB_COMMENTS E \<or>
               (\<forall>x\<in>set (p_comments pg). sub_comment_count x = 0)) \<longrightarrow>
           http_urls tr = map (\<lambda>off. ZHIHU_URL E @ root_route E c off) (offsets_asked [] pgs))"
proof -
  have "\<not> truthy (JBool False)" by simp
  from root_pages_served[OF assms(1-3) this assms(4), where offset="[]" and result="[]"]
  obtain s' tr where r: "root_pages fuel E cl c d cb (JBool False) [] [] s =
      (Some (Inr (concat (map p_comments pgs))), s')"
    and l: "log s' = log s @ tr" and t: "root_trace E c d (cb \<noteq> None) [] pgs tr"
    by auto
  from root_trace_urls[OF t]
  have "(\<forall>pg\<in>set pgs. \<not> ENABLE_GET_SUB_COMMENTS E \<or>
               (\<forall>x\<in>set (p_comments pg). sub_comment_count x = 0)) \<longrightarrow>
           http_urls tr = map (\<lambda>off. ZHIHU_URL E @ root_route E c off) (offsets_asked [] pgs)"
    by blast
  with r l t show ?thesis by (auto simp: get_note_all_comments_def)
qed

lemma demo_session_ok_at:
  "heap s 0 = [(''cookie'', ''d_c0=AAAA'')] \<Longrightarrow> 0 < next_addr s \<Longrightarrow>
   session_ok (demo_env demo_sign flag outs) demo_client s"
  by (simp add: session_ok_def demo_env_def demo_sign_def demo_client_def)

lemma demo_serves:
  "t < length outs \<Longrightarrow> outs ! t = ok (raw_page ids off ie) \<Longrightarrow> ids \<noteq> [] \<Longrightarrow>
   serves (demo_env demo_sign flag outs) c t (view ids off ie)"
  by (simp add: serves_def demo_env_def script_def ok_def interpret_response_def view_def raw_page_def
      read_page_def demo_extract_offset_def demo_extract_comments_def demo_comment_def cmt_def comp_def)

lemma demo_serves_counted:
  "t < length outs \<Longrightarrow> outs ! t = ok (counted_page ids off ie) \<Longrightarrow> ids \<noteq> [] \<Longrightarrow>
   serves (demo_env demo_sign flag outs) c t (counted_view ids off ie)"
  by (simp add: serves_def demo_env_def script_def ok_def interpret_response_def counted_view_def
      counted_page_def read_page_def demo_extract_offset_def demo_extract_comments_def demo_comment_def
      counted_def comp_def split_def)

theorem root_walk_follows_offsets_witness:
  "fst (get_note_all_comments 2 (demo_env demo_sign True two_pages) demo_client answer42 1 None demo_world) =
     Some (Inr [cmt ''c1'', cmt ''c2'', cmt ''c3'']) \<and>
   http_urls (log (snd (get_note_all_comments 2 (demo_env demo_sign True two_pages) demo_client answer42 1
     None demo_world))) =
     [''https://www.zhihu.com/api/v4/answers/42/root_comments?order=sort&offset=&limit=10'',
      ''https://www.zhihu.com/api/v4/answers/42/root_comments?order=sort&offset=o1&limit=10''] \<and>
   fst (get_note_all_comments 2 (demo_env demo_sign True replied_pages) demo_client answer42 1 None demo_world) =
     Some (Inr [counted (''c1'', 1), counted (''c2'', 0), counted (''c3'', 0)]) \<and>
   http_urls (log (snd (get_note_all_comments 2 (demo_env demo_sign True replied_pages) demo_client answer42 1
     None demo_world))) =
     [''https://www.zhihu.com/api/v4/answers/42/root_comments?order=sort&offset=&limit=10'',
      ''https://www.zhihu.com/api/v4/comment_v5/comment/c1/child_comment?order=sort&offset=&limit=10'',
      ''https://www.zhihu.com/api/v4/answers/42/root_comments?order=sort&offset=o1&limit=10'']"
proof -
  let ?E = "demo_env demo_sign True two_pages"
  let ?pgs = "[view [''c1'', ''c2''] ''o1'' False, view [''c3''] ''o2'' True]"
  let ?R = "get_note_all_comments 2 ?E demo_client answer42 1 None demo_world"
  have ie: "p_is_end (view ids off b) = JBool b" "p_comments (view ids off b) = map cmt ids" for ids off b
    by (simp_all add: view_def)
  have row: "served_in_a_row ?E answer42 (calls demo_world) ?pgs"
    by (simp add: demo_serves two_pages_def ie demo_world_def)
  have "page_run 2 ?E demo_client answer42 1 None demo_world ?pgs"
    by (rule page_run_no_child[OF row]) (simp add: accepts_def ie cmt_def)
  from root_walk_follows_offsets[OF demo_session_ok this]
  obtain s' tr where
    a: "?R = (Some (Inr (concat (map p_comments ?pgs))), s')" "log s' = log demo_world @ tr"
      "(\<forall>pg\<in>set ?pgs. \<not> ENABLE_GET_SUB_COMMENTS ?E \<or> (\<forall>x\<in>set (p_comments pg). sub_comment_count x = 0)) \<longrightarrow>
       http_urls tr = map (\<lambda>off. ZHIHU_URL ?E @ root_route ?E answer42 off) (offsets_asked [] ?pgs)"
    by auto
  have "\<forall>pg\<in>set ?pgs. \<not> ENABLE_GET_SUB_COMMENTS ?E \<or> (\<forall>x\<in>set (p_comments pg). sub_comment_count x = 0)"
    by (simp add: ie cmt_def)
  with a(3) have "http_urls tr = map (\<lambda>off. ZHIHU_URL ?E @ root_route ?E answer42 off) (offsets_asked [] ?pgs)"
    by blast
  with a(1,2) have A: "fst ?R = Some (Inr [cmt ''c1'', cmt ''c2'', cmt ''c3''])"
    "http_urls (log (snd ?R)) =
     [''https://www.zhihu.com/api/v4/answers/42/root_comments?order=sort&offset=&limit=10'',
      ''https://www.zhihu.com/api/v4/answers/42/root_comments?order=sort&offset=o1&limit=10'']"
    by (simp_all add: view_def demo_world_def root_route_def final_uri_def root_uri_def comment_params_def
        demo_env_def answer42_def)
  let ?F = "demo_env demo_sign True replied_pages"
  let ?qs = "[counted_view [(''c1'', 1), (''c2'', 0)] ''o1'' False, counted_view [(''c3'', 0)] ''o2'' True]"
  let ?Q = "get_note_all_comments 2 ?F demo_client answer42 1 None demo_world"
  have cv: "p_is_end (counted_view ids off b) = JBool b" "p_comments (counted_view ids off b) = map counted ids"
    for ids off b by (simp_all add: counted_view_def)
  have sv0: "serves ?F answer42 0 (counted_view [(''c1'', 1), (''c2'', 0)] ''o1'' False)"
    by (rule demo_serves_counted) (simp_all add: replied_pages_def)
  have sv1: "serves ?F answer42 (Suc 0) (counted_view [(''s1'', 0)] ''p1'' True)"
    by (rule demo_serves_counted) (simp_all add: replied_pages_def)
  have sv2: "serves ?F answer42 (Suc (Suc 0)) (counted_view [(''c3'', 0)] ''o2'' True)"
    by (rule demo_serves_counted) (simp_all add: replied_pages_def)
  have child: "\<exists>x s4. get_comments_all_sub_comments 2 ?F demo_client answer42
        (p_comments (counted_view [(''c1'', 1), (''c2'', 0)] ''o1'' False)) 1 None s3 = (Some (Inr x), s4) \<and>
      page_run (2 - 1) ?F demo_client answer42 1 None (emit (SleepE Root 1) s4)
        [counted_view [(''c3'', 0)] ''o2'' True]"
    if s3: "calls s3 = Suc (calls demo_world)"
      "heap s3 (default_headers demo_client) = heap demo_world (default_headers demo_client)"
      "default_headers demo_client < next_addr s3" for s3
  proof -
    from s3 have ok3: "session_ok ?F demo_client s3"
      by (intro demo_session_ok_at) (simp_all add: demo_client_def demo_world_def)
    have c3: "calls s3 = Suc 0" using s3(1) by (simp add: demo_world_def)
    have "served_in_a_row ?F answer42 (calls s3) [counted_view [(''s1'', 0)] ''p1'' True]"
      by (simp add: c3 sv1 cv)
    from child_pages_served[OF ok3 this, of "JBool False" 2 None "counted (''c1'', 1)" 1 "[]" "[]"]
    obtain s4 where cp: "child_pages 2 ?F demo_client answer42 (counted (''c1'', 1)) 1 None (JBool False) [] [] s3 =
        (Some (Inr [counted (''s1'', 0)]), s4)" and c4: "calls s4 = Suc (Suc 0)"
      by (auto simp: accepts_def cv c3)
    have sub: "get_comments_all_sub_comments 2 ?F demo_client answer42
        (p_comments (counted_view [(''c1'', 1), (''c2'', 0)] ''o1'' False)) 1 None s3 =
        (Some (Inr [counted (''s1'', 0)]), s4)"
      using cp by (simp add: get_comments_all_sub_comments_def cv counted_def demo_env_def)
    have "served_in_a_row ?F answer42 (calls (emit (SleepE Root 1) s4)) [counted_view [(''c3'', 0)] ''o2'' True]"
      by (simp add: c4 sv2 cv)
    then have "page_run (2 - 1) ?F demo_client answer42 1 None (emit (SleepE Root 1) s4)
        [counted_view [(''c3'', 0)] ''o2'' True]"
      by (rule page_run_no_child) (simp add: accepts_def cv counted_def)
    with sub show ?thesis by blast
  qed
  have "page_run 2 ?F demo_client answer42 1 None demo_world ?qs"
    using child sv0 by (simp add: cv accepts_def demo_world_def)
  from root_walk_follows_offsets[OF demo_session_ok this]
  obtain s'' where "?Q = (Some (Inr (concat (map p_comments ?qs))), s'')"
    by auto
  then have B: "fst ?Q = Some (Inr [counted (''c1'', 1), counted (''c2'', 0), counted (''c3'', 0)])"
    by (simp add: cv)
  have C: "http_urls (log (snd ?Q)) =
     [''https://www.zhihu.com/api/v4/answers/42/root_comments?order=sort&offset=&limit=10'',
      ''https://www.zhihu.com/api/v4/comment_v5/comment/c1/child_comment?order=sort&offset=&limit=10'',
      ''https://www.zhihu.com/api/v4/answers/42/root_comments?order=sort&offset=o1&limit=10'']"
    by (simp add: run_defs replied_pages_def http_urls_def)
  from A B C show ?thesis by simp
qed

end
